theory Spec2Isabelle
  imports Main "HOL-Library.Word" "HOL-Library.Sublist"
begin

unbundle bit_operations_syntax

section \<open>Machine types and constants of main.c\<close>

text \<open>
  The program is modelled for an LP64 target: \<open>unsigned long\<close> and \<open>long\<close> are 64 bits
  wide, \<open>unsigned short\<close> is 16 bits, \<open>unsigned char\<close> is 8 bits. Text written with
  \<open>sprintf\<close> is a \<open>string\<close>; the bytes of a file are a list of 8-bit words.
\<close>

type_synonym byte = "8 word"
type_synonym ushort = "16 word"
type_synonym ulong = "64 word"

definition SECTOR :: ulong where
  "SECTOR = 2352"

definition LONG_MAX :: int where
  "LONG_MAX = 9223372036854775807"

definition newline :: char where
  "newline = CHR 0x0A"

subsection \<open>Little-endian readers\<close>

text \<open>\<open>rd_le_u16\<close> and \<open>rd_le_u32\<close> read from a pointer into a buffer; the model reads the
  first bytes of the list that starts at the pointer. Every caller passes at least as many
  bytes as are read.\<close>

definition rd_le_u16 :: "byte list \<Rightarrow> ushort" where
  "rd_le_u16 b = ucast (b ! 0) OR push_bit 8 (ucast (b ! 1))"

definition rd_le_u32 :: "byte list \<Rightarrow> ulong" where
  "rd_le_u32 b = ucast (b ! 0) OR push_bit 8 (ucast (b ! 1)) OR
                 push_bit 16 (ucast (b ! 2)) OR push_bit 24 (ucast (b ! 3))"

subsection \<open>Decimal output of \<open>sprintf\<close>\<close>

definition digit_char :: "nat \<Rightarrow> char" where
  "digit_char d = ''0123456789'' ! d"

function dec :: "nat \<Rightarrow> string" where
  "dec n = (if n < 10 then [digit_char n] else dec (n div 10) @ [digit_char (n mod 10)])"
  by pat_completeness auto
termination
  by (relation "measure id") auto

declare dec.simps [simp del]

text \<open>The conversions \<open>%02lu\<close> and \<open>%02d\<close> of a value that is not negative: the decimal
  digits, filled with zeros on the left up to a width of two.\<close>

definition fmt_02 :: "nat \<Rightarrow> string" where
  "fmt_02 n = replicate (2 - length (dec n)) CHR ''0'' @ dec n"

subsection \<open>Timecodes\<close>

text \<open>The three numbers that \<open>mmssff_from_sectors\<close> computes before printing them. The
  text is printed in full, whatever its length; the buffer of 16 bytes that \<open>main\<close> passes
  holds it for every sector index below \<open>4500 * 10 ^ 9\<close>.\<close>

definition minutes :: "ulong \<Rightarrow> ulong" where
  "minutes sectors = sectors div (75 * 60)"

definition seconds :: "ulong \<Rightarrow> ulong" where
  "seconds sectors = (sectors div 75) mod 60"

definition frames :: "ulong \<Rightarrow> ulong" where
  "frames sectors = sectors mod 75"

definition mmssff_from_sectors :: "ulong \<Rightarrow> string" where
  "mmssff_from_sectors sectors =
     fmt_02 (unat (minutes sectors)) @ '':'' @ fmt_02 (unat (seconds sectors)) @ '':'' @
     fmt_02 (unat (frames sectors))"

text \<open>Reading a timecode back: the text is cut at its colons, every field is read as a
  decimal number, and the three numbers are weighted as minutes, seconds and frames.\<close>

definition digit_val :: "char \<Rightarrow> nat" where
  "digit_val c = length (takeWhile (\<lambda>d. d \<noteq> c) ''0123456789'')"

definition undec :: "string \<Rightarrow> nat" where
  "undec s = foldl (\<lambda>a c. 10 * a + digit_val c) 0 s"

fun split_colon :: "string \<Rightarrow> string list" where
  "split_colon [] = [[]]"
| "split_colon (c # cs) =
     (if c = CHR '':'' then [] # split_colon cs
      else (case split_colon cs of [] \<Rightarrow> [[c]] | w # ws \<Rightarrow> (c # w) # ws))"

definition sectors_from_mmssff :: "string \<Rightarrow> nat option" where
  "sectors_from_mmssff s =
     (case split_colon s of
        [mm, ss, ff] \<Rightarrow> Some (undec mm * 4500 + undec ss * 75 + undec ff)
      | _ \<Rightarrow> None)"

section \<open>Input streams\<close>

text \<open>
  A \<open>FILE *\<close> opened for reading is the bytes of a regular file and a read position.
  \<open>fread\<close> hands out the bytes that are left, at most as many as asked for; a seek may
  move the position past the end of the file and fails only where the new offset would be
  negative or would not fit a \<open>long\<close>; \<open>ftell\<close> answers \<open>-1\<close> for an offset that does
  not fit a \<open>long\<close>.
\<close>

record stream =
  content :: "byte list"
  pos :: nat

definition fread :: "nat \<Rightarrow> stream \<Rightarrow> byte list \<times> stream" where
  "fread n f =
     (let bs = take n (drop (pos f) (content f))
      in (bs, f\<lparr>pos := pos f + length bs\<rparr>))"

definition fseek_cur :: "int \<Rightarrow> stream \<Rightarrow> stream option" where
  "fseek_cur off f =
     (let p = int (pos f) + off
      in if p < 0 \<or> LONG_MAX < p then None else Some (f\<lparr>pos := nat p\<rparr>))"

definition fseek_set :: "int \<Rightarrow> stream \<Rightarrow> stream option" where
  "fseek_set off f =
     (if off < 0 \<or> LONG_MAX < off then None else Some (f\<lparr>pos := nat off\<rparr>))"

definition ftell :: "stream \<Rightarrow> int" where
  "ftell f = (if int (pos f) \<le> LONG_MAX then int (pos f) else - 1)"

section \<open>The container parser \<open>parse_wav\<close>\<close>

text \<open>The four-byte tags that \<open>memcmp\<close> compares against, as bytes.\<close>

definition tag_RIFF :: "byte list" where
  "tag_RIFF = [0x52, 0x49, 0x46, 0x46]"

definition tag_WAVE :: "byte list" where
  "tag_WAVE = [0x57, 0x41, 0x56, 0x45]"

definition tag_fmt :: "byte list" where
  "tag_fmt = [0x66, 0x6D, 0x74, 0x20]"

definition tag_data :: "byte list" where
  "tag_data = [0x64, 0x61, 0x74, 0x61]"

text \<open>The local variables of \<open>parse_wav\<close> that live across the iterations of its loop,
  with the two results \<open>*data_ofs\<close> and \<open>*data_size\<close>, which the caller sets to 0.\<close>

record wav_scan =
  got_fmt :: bool
  got_data :: bool
  audioFormat :: ushort
  numChannels :: ushort
  bitsPerSample :: ushort
  sampleRate :: ulong
  data_ofs :: ulong
  data_size :: ulong

definition scan0 :: wav_scan where
  "scan0 = \<lparr>got_fmt = False, got_data = False, audioFormat = 0, numChannels = 0,
            bitsPerSample = 0, sampleRate = 0, data_ofs = 0, data_size = 0\<rparr>"

text \<open>Every way in which \<open>parse_wav\<close> returns \<open>-1\<close>.\<close>

datatype wav_error =
    CannotReadHeader
  | NotRiffWave
  | TruncatedFmtBody
  | SeekFailed
  | TellFailed
  | MissingChunk
  | UnsupportedFormat

text \<open>What \<open>parse_wav\<close> prints on \<open>stderr\<close> before it returns \<open>-1\<close>; three of its
  returns print nothing.\<close>

fun diagnostic :: "wav_error \<Rightarrow> string \<Rightarrow> string" where
  "diagnostic CannotReadHeader name = name @ '': cannot read RIFF header'' @ [newline]"
| "diagnostic NotRiffWave name = name @ '': not a RIFF/WAVE file'' @ [newline]"
| "diagnostic MissingChunk name = name @ '': missing fmt or data chunk'' @ [newline]"
| "diagnostic UnsupportedFormat name =
     name @ '' must be 44.1kHz, 16-bit, stereo PCM'' @ [newline]"
| "diagnostic TruncatedFmtBody name = []"
| "diagnostic SeekFailed name = []"
| "diagnostic TellFailed name = []"

text \<open>The skip of the pad byte that follows a chunk of odd size.\<close>

definition skip_pad :: "ulong \<Rightarrow> stream \<Rightarrow> stream option" where
  "skip_pad csize f = (if csize AND 1 \<noteq> 0 then fseek_cur 1 f else Some f)"

text \<open>One iteration of the chunk loop, up to the test \<open>got_fmt && got_data\<close>: the loop is
  left at the end of the stream (\<open>Eof\<close>), the function returns \<open>-1\<close> (\<open>Fail\<close>), or the
  iteration completes with a new read position and new variables (\<open>Cont\<close>).\<close>

datatype step = Eof | Fail wav_error | Cont stream wav_scan

text \<open>The seek over the part of a format chunk that did not fit the local buffer.\<close>

definition skip_rest :: "nat \<Rightarrow> ulong \<Rightarrow> stream \<Rightarrow> stream option" where
  "skip_rest need csize f =
     (if int need < sint csize then fseek_cur (sint csize - int need) f else Some f)"

definition fmt_chunk :: "ulong \<Rightarrow> stream \<Rightarrow> wav_scan \<Rightarrow> step" where
  "fmt_chunk csize f st =
     (let need = (if csize < 40 then unat csize else 40) in
      case fread need f of (fmbuf, f1) \<Rightarrow>
        if length fmbuf \<noteq> need then Fail TruncatedFmtBody
        else
          let st1 = (if 16 \<le> csize
                     then st\<lparr>audioFormat := rd_le_u16 fmbuf,
                             numChannels := rd_le_u16 (drop 2 fmbuf),
                             sampleRate := rd_le_u32 (drop 4 fmbuf),
                             bitsPerSample := rd_le_u16 (drop 14 fmbuf),
                             got_fmt := True\<rparr>
                     else st)
          in case skip_rest need csize f1 of
               None \<Rightarrow> Fail SeekFailed
             | Some f2 \<Rightarrow>
                 (case skip_pad csize f2 of
                    None \<Rightarrow> Fail SeekFailed
                  | Some f3 \<Rightarrow> Cont f3 st1))"

definition data_chunk :: "ulong \<Rightarrow> stream \<Rightarrow> wav_scan \<Rightarrow> step" where
  "data_chunk csize f st =
     (let here = ftell f in
      if here < 0 then Fail TellFailed
      else
        let st1 = st\<lparr>data_ofs := word_of_int here, data_size := csize\<rparr>
        in case fseek_cur (sint csize) f of
             None \<Rightarrow> Fail SeekFailed
           | Some f1 \<Rightarrow>
               (case skip_pad csize f1 of
                  None \<Rightarrow> Fail SeekFailed
                | Some f2 \<Rightarrow> Cont f2 (st1\<lparr>got_data := True\<rparr>)))"

definition other_chunk :: "ulong \<Rightarrow> stream \<Rightarrow> wav_scan \<Rightarrow> step" where
  "other_chunk csize f st =
     (case fseek_cur (sint csize) f of
        None \<Rightarrow> Fail SeekFailed
      | Some f1 \<Rightarrow>
          (case skip_pad csize f1 of
             None \<Rightarrow> Fail SeekFailed
           | Some f2 \<Rightarrow> Cont f2 st))"

definition chunk_step :: "stream \<Rightarrow> wav_scan \<Rightarrow> step" where
  "chunk_step f st =
     (case fread 8 f of (chdr, f1) \<Rightarrow>
        if length chdr \<noteq> 8 then Eof
        else
          let csize = rd_le_u32 (drop 4 chdr)
          in if take 4 chdr = tag_fmt then fmt_chunk csize f1 st
             else if take 4 chdr = tag_data then data_chunk csize f1 st
             else other_chunk csize f1 st)"

subsection \<open>The chunk loop ends\<close>

text \<open>A chunk size is read from four bytes, so it is below \<open>2 ^ 32\<close> and the cast to
  \<open>long\<close> keeps its value: every seek of the loop goes forward, and an iteration that
  completes has consumed at least the eight bytes of a chunk header.\<close>

lemma rd_le_u32_mask: "take_bit 32 (rd_le_u32 b) = rd_le_u32 b"
  unfolding rd_le_u32_def
  by (rule bit_eqI) (auto simp: bit_simps dest: bit_imp_le_length)

lemma rd_le_u32_less: "unat (rd_le_u32 b) < 4294967296"
proof -
  have "unat (rd_le_u32 b) = unat (take_bit 32 (rd_le_u32 b))"
    by (simp only: rd_le_u32_mask)
  also have "\<dots> = take_bit 32 (unat (rd_le_u32 b))"
    by (simp only: unsigned_take_bit_eq)
  also have "\<dots> < 2 ^ 32"
    by (rule take_bit_nat_less_exp)
  finally show ?thesis by simp
qed

lemma sint_small: 
  assumes "unat (w::ulong) < 4294967296" shows "sint w = int (unat w)"
proof -
  have eq: "uint w = int (unat w)" by (rule uint_nat)
  have "uint w < 9223372036854775808" using assms eq by linarith
  moreover have "(2::int) ^ 63 = 9223372036854775808" by simp
  ultimately have "uint w < 2 ^ 63" by linarith
  moreover have "- (2 ^ 63) \<le> uint w"
    by (rule order_trans [of _ 0]) simp_all
  ultimately have "signed_take_bit 63 (uint w) = uint w"
    by (rule signed_take_bit_int_eq_self [rotated])
  then have "sint w = uint w" by (simp add: sint_uint)
  then show ?thesis by (simp only: eq)
qed

lemma fread_content: "fread n f = (bs, f') \<Longrightarrow> content f' = content f"
  by (auto simp: fread_def Let_def)

lemma fread_pos: "fread n f = (bs, f') \<Longrightarrow> pos f' = pos f + length bs"
  by (auto simp: fread_def Let_def)

lemma fread_fwd:
  "fread n f = (bs, f') \<Longrightarrow> content f' = content f \<and> pos f' = pos f + length bs"
  by (auto simp: fread_def Let_def)

lemma fread_bytes:
  "fread n f = (bs, f') \<Longrightarrow> bs = take n (drop (pos f) (content f))"
  by (auto simp: fread_def Let_def)

lemma fread_full:
  assumes "fread n f = (bs, f')" and "length bs = n" and "0 < n"
  shows "pos f + n \<le> length (content f)"
proof -
  have "bs = take n (drop (pos f) (content f))"
    using assms(1) by (rule fread_bytes)
  then have "length bs = min (length (content f) - pos f) n"
    by simp
  with assms(2,3) show ?thesis by arith
qed

lemma fseek_cur_fwd:
  "fseek_cur off f = Some f' \<Longrightarrow> 0 \<le> off \<Longrightarrow> content f' = content f \<and> pos f' = pos f + nat off"
  by (auto simp: fseek_cur_def Let_def nat_add_distrib split: if_splits)

lemma skip_pad_fwd:
  "skip_pad csize f = Some f' \<Longrightarrow> content f' = content f \<and> pos f \<le> pos f'"
  by (auto simp: skip_pad_def dest!: fseek_cur_fwd split: if_splits)

lemma skip_rest_fwd:
  "skip_rest need csize f = Some f' \<Longrightarrow> content f' = content f \<and> pos f \<le> pos f'"
  by (auto simp: skip_rest_def dest!: fseek_cur_fwd split: if_splits)

lemma fmt_chunk_fwd:
  "fmt_chunk csize f st = Cont f' st' \<Longrightarrow> content f' = content f \<and> pos f \<le> pos f'"
  by (auto simp: fmt_chunk_def Let_def split: prod.splits if_splits option.splits
      dest!: skip_pad_fwd skip_rest_fwd fread_fwd)

lemma sint_rd_le_u32: "0 \<le> sint (rd_le_u32 b)"
  by (simp only: sint_small [OF rd_le_u32_less])

lemma data_chunk_fwd:
  "data_chunk csize f st = Cont f' st' \<Longrightarrow> 0 \<le> sint csize \<Longrightarrow>
     content f' = content f \<and> pos f \<le> pos f'"
  by (auto simp: data_chunk_def Let_def split: if_splits option.splits
      dest!: skip_pad_fwd fseek_cur_fwd)

lemma other_chunk_fwd:
  "other_chunk csize f st = Cont f' st' \<Longrightarrow> 0 \<le> sint csize \<Longrightarrow>
     content f' = content f \<and> pos f \<le> pos f'"
  by (auto simp: other_chunk_def split: option.splits dest!: skip_pad_fwd fseek_cur_fwd)

lemma chunk_step_progress:
  assumes "chunk_step f st = Cont f' st'"
  shows "content f' = content f \<and> pos f + 8 \<le> pos f' \<and> pos f + 8 \<le> length (content f)"
proof -
  obtain chdr f1 where r: "fread 8 f = (chdr, f1)" by (cases "fread 8 f")
  with assms have len: "length chdr = 8"
    by (auto simp: chunk_step_def split: if_splits)
  from r len have p1: "pos f1 = pos f + 8" and c1: "content f1 = content f"
    by (auto dest: fread_pos fread_content)
  from r len have room: "pos f + 8 \<le> length (content f)"
    by (auto dest: fread_full)
  let ?csize = "rd_le_u32 (drop 4 chdr)"
  from assms r len have
    "fmt_chunk ?csize f1 st = Cont f' st' \<or> data_chunk ?csize f1 st = Cont f' st' \<or>
     other_chunk ?csize f1 st = Cont f' st'"
    by (auto simp: chunk_step_def Let_def split: if_splits)
  then have "content f' = content f1 \<and> pos f1 \<le> pos f'"
    using sint_rd_le_u32 [of "drop 4 chdr"]
    by (auto dest: fmt_chunk_fwd data_chunk_fwd other_chunk_fwd)
  with p1 c1 room show ?thesis by simp
qed

text \<open>The loop \<open>for (;;)\<close> of \<open>parse_wav\<close>. It has two exits, and the result says which
  one was taken: the \<open>break\<close> after a chunk header that could not be read in full
  (\<open>EndOfStream\<close>) and the \<open>break\<close> after the test \<open>got_fmt && got_data\<close> (\<open>BothSeen\<close>).\<close>

datatype loop_exit = EndOfStream | BothSeen

function scan_chunks :: "stream \<Rightarrow> wav_scan \<Rightarrow> wav_error + (loop_exit \<times> wav_scan)" where
  "scan_chunks f st =
     (case chunk_step f st of
        Eof \<Rightarrow> Inr (EndOfStream, st)
      | Fail e \<Rightarrow> Inl e
      | Cont f' st' \<Rightarrow>
          if got_fmt st' \<and> got_data st' then Inr (BothSeen, st') else scan_chunks f' st')"
  by pat_completeness auto
termination
proof (relation "measure (\<lambda>(f, st). length (content f) - pos f)")
  show "wf (measure (\<lambda>(f, st). length (content f) - pos f))" by simp
next
  fix f st f' st'
  assume "chunk_step f st = Cont f' st'"
  then have "content f' = content f \<and> pos f + 8 \<le> pos f' \<and> pos f + 8 \<le> length (content f)"
    by (rule chunk_step_progress)
  then show "((f', st'), (f, st)) \<in> measure (\<lambda>(f, st). length (content f) - pos f)"
    by simp arith
qed

declare scan_chunks.simps [simp del]

text \<open>\<open>parse_wav\<close>: \<open>Inr\<close> holds \<open>*data_ofs\<close> and \<open>*data_size\<close> where the function returns 0;
  \<open>Inl\<close> holds the reason for returning \<open>-1\<close> and the text printed on \<open>stderr\<close>.\<close>

definition fail :: "wav_error \<Rightarrow> string \<Rightarrow> (wav_error \<times> string) + 'a" where
  "fail e name = Inl (e, diagnostic e name)"

definition profile_ok :: "wav_scan \<Rightarrow> bool" where
  "profile_ok st \<longleftrightarrow>
     audioFormat st = 1 \<and> numChannels st = 2 \<and> sampleRate st = 44100 \<and> bitsPerSample st = 16"

definition parse_wav :: "stream \<Rightarrow> string \<Rightarrow> (wav_error \<times> string) + (ulong \<times> ulong)" where
  "parse_wav f name =
     (case fread 12 f of (hdr12, f1) \<Rightarrow>
        if length hdr12 \<noteq> 12 then fail CannotReadHeader name
        else if take 4 hdr12 \<noteq> tag_RIFF \<or> take 4 (drop 8 hdr12) \<noteq> tag_WAVE
        then fail NotRiffWave name
        else
          (case scan_chunks f1 scan0 of
             Inl e \<Rightarrow> fail e name
           | Inr (ex, st) \<Rightarrow>
               if \<not> got_fmt st \<or> \<not> got_data st then fail MissingChunk name
               else if \<not> profile_ok st then fail UnsupportedFormat name
               else Inr (data_ofs st, data_size st)))"

text \<open>The two results stay in range while the loop runs: the size is below \<open>2 ^ 32\<close>
  and the offset is below \<open>2 ^ 63\<close>.\<close>

definition located :: "wav_scan \<Rightarrow> bool" where
  "located st \<longleftrightarrow>
     unat (data_size st) < 4294967296 \<and> unat (data_ofs st) < 9223372036854775808"

section \<open>The sector assembler\<close>

text \<open>
  The image \<open>disc.bin\<close> is written through a buffered stream, as \<open>stdio\<close> does it. The
  stream holds the bytes handed to it so far; a prefix of them has reached the file and
  the rest waits in the buffer. How much a call of \<open>fwrite\<close> passes on to the file is the
  choice of the library: \<open>policy\<close> gives it from the number of bytes that wait and the
  size of the request. The file takes \<open>room\<close> more bytes and then no more. A call of
  \<open>fwrite\<close> returns a short count exactly where the bytes it passes on do not all fit;
  bytes that only go to the buffer are accepted whatever \<open>room\<close> is.
\<close>

record wstream =
  written :: "byte list"
  on_disk :: nat
  room :: nat
  policy :: "nat \<Rightarrow> nat \<Rightarrow> nat"

definition fwrite :: "byte list \<Rightarrow> wstream \<Rightarrow> nat \<times> wstream" where
  "fwrite bs out =
     (let waiting = length (written out) - on_disk out;
          want = min (policy out waiting (length bs)) (waiting + length bs);
          got = min want (room out);
          out' = out\<lparr>written := written out @ bs, on_disk := on_disk out + got,
                     room := room out - got\<rparr>
      in if got < want then (got - waiting, out') else (length bs, out'))"

text \<open>\<open>fclose(fbin)\<close>: the bytes that wait are passed on as far as they fit. The result is
  the file \<open>disc.bin\<close> as the program leaves it; \<open>main\<close> ignores what \<open>fclose\<close> returns, so
  bytes that did not fit are lost without a trace.\<close>

definition fclose :: "wstream \<Rightarrow> byte list" where
  "fclose out =
     take (on_disk out + min (length (written out) - on_disk out) (room out)) (written out)"

text \<open>The policy of a stream with a buffer of \<open>cap\<close> bytes: a request that fits the buffer
  is kept there, and one that does not fit sends everything to the file. A buffer of 0
  bytes is an unbuffered stream.\<close>

definition full_buffer :: "nat \<Rightarrow> nat \<Rightarrow> nat \<Rightarrow> nat" where
  "full_buffer cap waiting n = (if waiting + n \<le> cap then 0 else waiting + n)"

definition BUFSIZE :: nat where
  "BUFSIZE = 8192"

text \<open>The reasons for which the body of the track loop leaves \<open>main\<close> with status 1; a
  failure of \<open>parse_wav\<close> comes with the text that \<open>parse_wav\<close> has printed.\<close>

datatype track_error =
    OpenWav
  | Parse wav_error string
  | SeekData
  | ShortRead
  | WriteError
  | WriteErrorPadding

text \<open>The copy loop \<open>while (remaining > 0)\<close>. The counter only goes down, by a chunk that
  is never larger than the counter, so it is kept as a natural number.\<close>

function copy_loop :: "nat \<Rightarrow> stream \<Rightarrow> wstream \<Rightarrow> (track_error \<times> wstream) + wstream" where
  "copy_loop remaining fin out =
     (if 0 < remaining then
        let chunk = (if BUFSIZE < remaining then BUFSIZE else remaining) in
        case fread chunk fin of (buf, fin') \<Rightarrow>
          if length buf \<noteq> chunk then Inl (ShortRead, out)
          else
            (case fwrite buf out of (n, out') \<Rightarrow>
               if n \<noteq> chunk then Inl (WriteError, out')
               else copy_loop (remaining - chunk) fin' out')
      else Inr out)"
  by pat_completeness auto
termination
  by (relation "measure (\<lambda>(remaining, fin, out). remaining)") (auto simp: BUFSIZE_def)

declare copy_loop.simps [simp del]

text \<open>The padding loop \<open>while (pad_bytes > 0)\<close>, which writes from a buffer of zeros.\<close>

function pad_loop :: "nat \<Rightarrow> wstream \<Rightarrow> (track_error \<times> wstream) + wstream" where
  "pad_loop pad_bytes out =
     (if 0 < pad_bytes then
        let chunk2 = (if BUFSIZE < pad_bytes then BUFSIZE else pad_bytes) in
        case fwrite (take chunk2 (replicate BUFSIZE 0)) out of (n, out') \<Rightarrow>
          if n \<noteq> chunk2 then Inl (WriteErrorPadding, out')
          else pad_loop (pad_bytes - chunk2) out'
      else Inr out)"
  by pat_completeness auto
termination
  by (relation "measure (\<lambda>(pad_bytes, out). pad_bytes)") (auto simp: BUFSIZE_def)

declare pad_loop.simps [simp del]

text \<open>
  What the program finds around it: the regular files that \<open>fopen(path, "rb")\<close> can open,
  with their bytes; whether the two output files can be created; whether \<open>malloc\<close>
  returns memory; how many bytes \<open>disc.bin\<close> can take and how the library buffers the
  stream to it; the text \<open>perror\<close> prints for the pending error number. The input files are files other than the two outputs: their
  bytes do not change while the program runs.
\<close>

record world =
  files :: "string \<Rightarrow> byte list option"
  bin_opens :: bool
  cue_opens :: bool
  malloc_ok :: bool
  bin_space :: nat
  bin_policy :: "nat \<Rightarrow> nat \<Rightarrow> nat"
  errno_text :: string

text \<open>The variables of \<open>main\<close> that live across the iterations of the track loop. The
  entries \<open>index_times[0..i-1]\<close> written so far are a list; iteration \<open>i\<close> appends
  entry \<open>i\<close>.\<close>

record asm =
  index_times :: "ulong list"
  total_sectors_before :: ulong
  fbin :: wstream

definition pad_of :: "ulong \<Rightarrow> ulong" where
  "pad_of d_size = (SECTOR - d_size mod SECTOR) mod SECTOR"

definition track_message :: "track_error \<Rightarrow> world \<Rightarrow> string \<Rightarrow> string" where
  "track_message e w wav =
     (case e of
        OpenWav \<Rightarrow> ''open wav: '' @ errno_text w @ [newline]
      | Parse pe msg \<Rightarrow> msg
      | SeekData \<Rightarrow> wav @ '': seek failed'' @ [newline]
      | ShortRead \<Rightarrow> wav @ '': short read'' @ [newline]
      | WriteError \<Rightarrow> ''disc.bin: write error'' @ [newline]
      | WriteErrorPadding \<Rightarrow> ''disc.bin: write error (padding)'' @ [newline])"

text \<open>The body of the track loop for the input \<open>wav\<close>. \<open>Inl\<close> is a return with status 1 and
  holds the stream to the image as it is at that point. The variables \<open>d_ofs\<close> and \<open>d_size\<close> are
  \<open>data_ofs\<close> and \<open>data_size\<close> of \<open>main\<close>. The seek to \<open>d_ofs\<close> is absolute, so the
  position at which \<open>parse_wav\<close> left the stream does not matter.\<close>

definition track :: "world \<Rightarrow> string \<Rightarrow> asm \<Rightarrow> (track_error \<times> wstream) + asm" where
  "track w wav a =
     (case files w wav of
        None \<Rightarrow> Inl (OpenWav, fbin a)
      | Some bytes \<Rightarrow>
          let fin = \<lparr>content = bytes, pos = 0\<rparr> in
          (case parse_wav fin wav of
             Inl (e, msg) \<Rightarrow> Inl (Parse e msg, fbin a)
           | Inr (d_ofs, d_size) \<Rightarrow>
               let idx = index_times a @ [total_sectors_before a] in
               (case fseek_set (sint d_ofs) fin of
                  None \<Rightarrow> Inl (SeekData, fbin a)
                | Some fin1 \<Rightarrow>
                    (case copy_loop (unat d_size) fin1 (fbin a) of
                       Inl err \<Rightarrow> Inl err
                     | Inr out1 \<Rightarrow>
                         (case pad_loop (unat (pad_of d_size)) out1 of
                            Inl err \<Rightarrow> Inl err
                          | Inr out2 \<Rightarrow>
                              let padded = d_size + pad_of d_size in
                              Inr \<lparr>index_times = idx,
                                   total_sectors_before =
                                     total_sectors_before a + padded div SECTOR,
                                   fbin = out2\<rparr>)))))"

text \<open>The track loop \<open>for (i = 0; i < ntracks; ++i)\<close> over \<open>argv[1 + i]\<close>. It stops at the
  first input that fails and reports that input with the reason.\<close>

fun tracks :: "world \<Rightarrow> string list \<Rightarrow> asm \<Rightarrow> (string \<times> track_error \<times> wstream) + asm" where
  "tracks w [] a = Inr a"
| "tracks w (wav # wavs) a =
     (case track w wav a of
        Inl (e, out) \<Rightarrow> Inl (wav, e, out)
      | Inr a' \<Rightarrow> tracks w wavs a')"

definition asm0 :: "world \<Rightarrow> asm" where
  "asm0 w = \<lparr>index_times = [], total_sectors_before = 0,
             fbin = \<lparr>written = [], on_disk = 0, room = bin_space w,
                     policy = bin_policy w\<rparr>\<rparr>"

section \<open>The cue sheet\<close>

definition track_line :: "nat \<Rightarrow> string" where
  "track_line i = ''  TRACK '' @ fmt_02 (i + 1) @ '' AUDIO'' @ [newline]"

definition pregap_line :: string where
  "pregap_line = ''    PREGAP 00:02:00'' @ [newline]"

definition index_line :: "ulong \<Rightarrow> string" where
  "index_line t = ''    INDEX 01 '' @ mmssff_from_sectors t @ [newline]"

definition file_line :: string where
  "file_line = ''FILE '' @ [CHR 0x22] @ ''disc.bin'' @ [CHR 0x22] @ '' BINARY'' @ [newline]"

text \<open>The loop that writes the cue sheet, from track \<open>i\<close> on, over the entries
  \<open>index_times[i..]\<close>.\<close>

fun cue_tracks :: "nat \<Rightarrow> ulong list \<Rightarrow> string" where
  "cue_tracks i [] = []"
| "cue_tracks i (t # ts) =
     track_line i @ (if i = 0 then pregap_line else []) @ index_line t @ cue_tracks (Suc i) ts"

definition cue_sheet :: "ulong list \<Rightarrow> string" where
  "cue_sheet ts = file_line @ cue_tracks 0 ts"

section \<open>The program\<close>

text \<open>
  What a run leaves behind: the exit status, the text on \<open>stderr\<close>, and the two output
  files, \<open>None\<close> for a file that was never created. Every return of \<open>main\<close> after
  \<open>disc.bin\<close> was opened closes the stream to it first. The progress lines on \<open>stdout\<close> are
  left out. \<open>main\<close> takes \<open>argv[0]\<close> and the input paths \<open>argv[1..]\<close>, so \<open>argc\<close> is one more
  than the number of paths. The writes to the cue sheet are not checked by the program and
  are taken to succeed.
\<close>

record outcome =
  status :: int
  err :: string
  disc_bin :: "byte list option"
  disc_cue :: "string option"

definition usage :: "string \<Rightarrow> string" where
  "usage argv0 =
     ''No track*.wav files found (pass them as arguments).'' @ [newline] @
     ''Usage: '' @ argv0 @ '' track1.wav [track2.wav ...]'' @ [newline]"

definition main :: "world \<Rightarrow> string \<Rightarrow> string list \<Rightarrow> outcome" where
  "main w argv0 paths =
     (let argc = 1 + int (length paths) in
      if argc < 2 then
        \<lparr>status = 1, err = usage argv0, disc_bin = None, disc_cue = None\<rparr>
      else if \<not> bin_opens w then
        \<lparr>status = 1, err = ''open disc.bin: '' @ errno_text w @ [newline],
         disc_bin = None, disc_cue = None\<rparr>
      else if \<not> malloc_ok w then
        \<lparr>status = 1, err = ''Out of memory'' @ [newline], disc_bin = Some [], disc_cue = None\<rparr>
      else
        (case tracks w paths (asm0 w) of
           Inl (wav, e, out) \<Rightarrow>
             \<lparr>status = 1, err = track_message e w wav,
              disc_bin = Some (fclose out), disc_cue = None\<rparr>
         | Inr a \<Rightarrow>
             if \<not> cue_opens w then
               \<lparr>status = 1, err = ''open disc.cue: '' @ errno_text w @ [newline],
                disc_bin = Some (fclose (fbin a)), disc_cue = None\<rparr>
             else
               \<lparr>status = 0, err = [], disc_bin = Some (fclose (fbin a)),
                disc_cue = Some (cue_sheet (index_times a))\<rparr>))"

section \<open>The payload of an input and the numbers of the specification\<close>

text \<open>The payload of the input \<open>wav\<close>: the bytes of the file from the offset that
  \<open>parse_wav\<close> stores in \<open>*data_ofs\<close>, as many as it stores in \<open>*data_size\<close>.\<close>

definition source_payload :: "world \<Rightarrow> string \<Rightarrow> byte list" where
  "source_payload w wav =
     (case files w wav of
        None \<Rightarrow> []
      | Some bytes \<Rightarrow>
          (case parse_wav \<lparr>content = bytes, pos = 0\<rparr> wav of
             Inl e \<Rightarrow> []
           | Inr (d_ofs, d_size) \<Rightarrow> take (unat d_size) (drop (unat d_ofs) bytes)))"

text \<open>The padded sector count of a payload of \<open>L\<close> bytes, written after the
  specification, on natural numbers: \<open>(L + pad) / 2352\<close> with
  \<open>pad = (2352 - (L mod 2352)) mod 2352\<close>. The program computes it on 64-bit words, as
  \<open>(d_size + pad_of d_size) div SECTOR\<close> in \<open>track\<close>.\<close>

definition padded_sector_count :: "nat \<Rightarrow> nat" where
  "padded_sector_count L = (L + (2352 - L mod 2352) mod 2352) div 2352"

text \<open>What one track adds to the image: the payload and the zeros up to the next sector
  boundary.\<close>

definition block :: "world \<Rightarrow> string \<Rightarrow> byte list" where
  "block w wav =
     source_payload w wav @
     replicate ((2352 - length (source_payload w wav) mod 2352) mod 2352) 0"

section \<open>The layout of a chunk\<close>

text \<open>
  The container format, for stating what the parser does with whole chunks: a chunk is a
  tag of four bytes, the length of its body as four little-endian bytes, the body, and one
  pad byte where the length is odd.
\<close>

definition le32 :: "nat \<Rightarrow> byte list" where
  "le32 n = [word_of_nat n, word_of_nat (drop_bit 8 n), word_of_nat (drop_bit 16 n),
             word_of_nat (drop_bit 24 n)]"

definition padding :: "nat \<Rightarrow> nat" where
  "padding n = (if odd n then 1 else 0)"

definition chunk_bytes :: "byte list \<times> byte list \<Rightarrow> byte list" where
  "chunk_bytes c =
     fst c @ le32 (length (snd c)) @ snd c @ (if odd (length (snd c)) then [0] else [])"

text \<open>
  A chunk as it stands in a stream, with whatever bytes the file has in the place of the
  pad byte: \<open>c_pad\<close> is one byte after a body of odd length and empty otherwise. The
  parser seeks over the pad byte and never reads it.
\<close>

record chunk =
  c_tag :: "byte list"
  c_body :: "byte list"
  c_pad :: "byte list"

definition chunk_image :: "chunk \<Rightarrow> byte list" where
  "chunk_image c = c_tag c @ le32 (length (c_body c)) @ c_body c @ c_pad c"

text \<open>The length that the chunk header at the start of \<open>bs\<close> declares, for a list of at
  least eight bytes.\<close>

definition declared :: "byte list \<Rightarrow> nat" where
  "declared bs = unat (rd_le_u32 (drop 4 bs))"

section \<open>Example inputs\<close>

text \<open>A RIFF/WAVE file with a format chunk of 16 bytes (PCM, 2 channels, 44100 Hz,
  16 bits) and a data chunk of 4 bytes.\<close>

definition wav_cd :: "byte list" where
  "wav_cd = [0x52, 0x49, 0x46, 0x46, 0x28, 0, 0, 0, 0x57, 0x41, 0x56, 0x45,
             0x66, 0x6D, 0x74, 0x20, 16, 0, 0, 0,
             1, 0, 2, 0, 0x44, 0xAC, 0, 0, 0x10, 0xB1, 2, 0, 4, 0, 16, 0,
             0x64, 0x61, 0x74, 0x61, 4, 0, 0, 0, 1, 2, 3, 4]"

text \<open>The same file with a sample rate of 48000 Hz.\<close>

definition wav_48k :: "byte list" where
  "wav_48k = [0x52, 0x49, 0x46, 0x46, 0x28, 0, 0, 0, 0x57, 0x41, 0x56, 0x45,
              0x66, 0x6D, 0x74, 0x20, 16, 0, 0, 0,
              1, 0, 2, 0, 0x80, 0xBB, 0, 0, 0x00, 0xEE, 2, 0, 4, 0, 16, 0,
              0x64, 0x61, 0x74, 0x61, 4, 0, 0, 0, 1, 2, 3, 4]"

text \<open>A file with a data chunk and no format chunk, and a file with a format chunk and no
  data chunk.\<close>

definition wav_no_fmt :: "byte list" where
  "wav_no_fmt = [0x52, 0x49, 0x46, 0x46, 0x10, 0, 0, 0, 0x57, 0x41, 0x56, 0x45,
                 0x64, 0x61, 0x74, 0x61, 4, 0, 0, 0, 1, 2, 3, 4]"

definition wav_no_data :: "byte list" where
  "wav_no_data = [0x52, 0x49, 0x46, 0x46, 0x1C, 0, 0, 0, 0x57, 0x41, 0x56, 0x45,
                  0x66, 0x6D, 0x74, 0x20, 16, 0, 0, 0,
                  1, 0, 2, 0, 0x44, 0xAC, 0, 0, 0x10, 0xB1, 2, 0, 4, 0, 16, 0]"

text \<open>A file that ends inside the body of a format chunk: the chunk declares 8 bytes and
  4 bytes follow.\<close>

definition wav_cut_fmt :: "byte list" where
  "wav_cut_fmt = [0x52, 0x49, 0x46, 0x46, 0x10, 0, 0, 0, 0x57, 0x41, 0x56, 0x45,
                  0x66, 0x6D, 0x74, 0x20, 8, 0, 0, 0, 1, 0, 2, 0]"

text \<open>A world with the one input file \<open>a.wav\<close>, a stream buffer of 4096 bytes and room for
  10000 bytes in \<open>disc.bin\<close>, where nothing fails.\<close>

definition world_cd :: world where
  "world_cd = \<lparr>files = (\<lambda>p. if p = ''a.wav'' then Some wav_cd else None),
               bin_opens = True, cue_opens = True, malloc_ok = True,
               bin_space = 10000, bin_policy = full_buffer 4096, errno_text = []\<rparr>"

text \<open>The variables of \<open>main\<close> after the track loop over \<open>a.wav\<close> given twice.\<close>

definition asm_cd :: asm where
  "asm_cd = \<lparr>index_times = [0, 1], total_sectors_before = 2,
             fbin = \<lparr>written = [1, 2, 3, 4] @ replicate 2348 0 @ [1, 2, 3, 4] @ replicate 2348 0,
                     on_disk = 4704, room = 5296, policy = full_buffer 4096\<rparr>\<rparr>"

text \<open>The world of \<open>world_cd\<close> with room for only \<open>n\<close> bytes in \<open>disc.bin\<close>: a device
  that fills up while the program runs.\<close>

definition world_tight :: "nat \<Rightarrow> world" where
  "world_tight n = world_cd\<lparr>bin_space := n\<rparr>"

text \<open>A RIFF/WAVE file with the same format chunk and an empty data chunk, and a world in
  which every path opens that file.\<close>

definition wav_empty :: "byte list" where
  "wav_empty = [0x52, 0x49, 0x46, 0x46, 0x24, 0, 0, 0, 0x57, 0x41, 0x56, 0x45,
                0x66, 0x6D, 0x74, 0x20, 16, 0, 0, 0,
                1, 0, 2, 0, 0x44, 0xAC, 0, 0, 0x10, 0xB1, 2, 0, 4, 0, 16, 0,
                0x64, 0x61, 0x74, 0x61, 0, 0, 0, 0]"

definition world_empty :: world where
  "world_empty = \<lparr>files = (\<lambda>p. Some wav_empty),
                  bin_opens = True, cue_opens = True, malloc_ok = True,
                  bin_space = 0, bin_policy = full_buffer 4096, errno_text = []\<rparr>"

section \<open>Timecodes are exact\<close>

lemma digit_char_cases:
  "d < 10 \<Longrightarrow> digit_char d \<in> set ''0123456789''"
  unfolding digit_char_def by (rule nth_mem) simp

lemma digit_val_digit_char: "d < 10 \<Longrightarrow> digit_val (digit_char d) = d"
proof -
  assume "d < 10"
  then have "d = 0 \<or> d = 1 \<or> d = 2 \<or> d = 3 \<or> d = 4 \<or> d = 5 \<or> d = 6 \<or> d = 7 \<or> d = 8 \<or> d = 9"
    by arith
  then show ?thesis
    by (elim disjE) (simp_all add: digit_val_def digit_char_def)
qed

lemma dec_digits: "set (dec n) \<subseteq> set ''0123456789''"
proof (induction n rule: dec.induct)
  case (1 n)
  show ?case
  proof (cases "n < 10")
    case True
    then show ?thesis using digit_char_cases [of n] by (subst dec.simps) simp
  next
    case False
    then show ?thesis
      using 1 digit_char_cases [of "n mod 10"] by (subst dec.simps) simp
  qed
qed

lemma undec_snoc: "undec (s @ [c]) = 10 * undec s + digit_val c"
  by (simp add: undec_def)

lemma undec_dec: "undec (dec n) = n"
proof (induction n rule: dec.induct)
  case (1 n)
  show ?case
  proof (cases "n < 10")
    case True
    then show ?thesis
      by (subst dec.simps) (simp add: undec_def digit_val_digit_char)
  next
    case False
    then show ?thesis
      using 1 by (subst dec.simps) (simp add: undec_snoc digit_val_digit_char)
  qed
qed

lemma undec_zeros: "undec (replicate k CHR ''0'' @ s) = undec s"
proof -
  have "foldl (\<lambda>a c. 10 * a + digit_val c) 0 (replicate k CHR ''0'') = 0"
    by (induction k) (simp_all add: digit_val_def)
  then show ?thesis by (simp add: undec_def)
qed

lemma undec_fmt_02: "undec (fmt_02 n) = n"
  by (simp add: fmt_02_def undec_zeros undec_dec)

lemma fmt_02_no_colon: "CHR '':'' \<notin> set (fmt_02 n)"
  using dec_digits [of n] by (auto simp: fmt_02_def)

lemma split_colon_plain: "CHR '':'' \<notin> set a \<Longrightarrow> split_colon a = [a]"
  by (induction a) auto

lemma split_colon_cons:
  "CHR '':'' \<notin> set a \<Longrightarrow> split_colon (a @ CHR '':'' # rest) = a # split_colon rest"
  by (induction a) auto

lemma sectors_from_three:
  "sectors_from_mmssff (fmt_02 m @ '':'' @ fmt_02 s @ '':'' @ fmt_02 f) =
     Some (m * 4500 + s * 75 + f)"
  by (simp add: sectors_from_mmssff_def split_colon_cons split_colon_plain fmt_02_no_colon undec_fmt_02)

lemma unat_minutes: "unat (minutes s) = unat s div 4500"
  by (simp add: minutes_def unat_div)

lemma unat_seconds: "unat (seconds s) = (unat s div 75) mod 60"
  by (simp add: seconds_def unat_div unat_mod)

lemma unat_frames: "unat (frames s) = unat s mod 75"
  by (simp add: frames_def unat_mod)

lemma mmssff_arith: "(n::nat) div 4500 * 4500 + (n div 75) mod 60 * 75 + n mod 75 = n"
proof -
  define q where "q = n div 75 div 60"
  define r where "r = n div 75 mod 60"
  have q: "n div 4500 = q"
    using div_mult2_eq [of n 75 60] by (simp add: q_def)
  have "q * 4500 + r * 75 = (q * 60 + r) * 75"
    by (simp add: algebra_simps)
  also have "q * 60 + r = n div 75"
    unfolding q_def r_def by (rule div_mult_mod_eq)
  finally have "q * 4500 + r * 75 + n mod 75 = n div 75 * 75 + n mod 75"
    by simp
  also have "\<dots> = n"
    by (rule div_mult_mod_eq)
  finally show ?thesis
    by (simp only: q r_def)
qed

lemma dec_one: "n < 10 \<Longrightarrow> dec n = [digit_char n]"
  by (subst dec.simps) simp

lemma dec_two: "10 \<le> n \<Longrightarrow> n < 100 \<Longrightarrow> dec n = [digit_char (n div 10), digit_char (n mod 10)]"
  by (subst dec.simps, subst dec.simps) simp

lemma fmt_02_small: "n < 100 \<Longrightarrow> fmt_02 n = [digit_char (n div 10), digit_char (n mod 10)]"
  by (cases "n < 10") (simp_all add: fmt_02_def dec_one dec_two digit_char_def)

lemma length_dec_pos: "0 < length (dec n)"
  by (subst dec.simps) simp

lemma length_dec_ge: 
  assumes "100 \<le> n" shows "3 \<le> length (dec n)"
proof -
  have "dec n = dec (n div 10) @ [digit_char (n mod 10)]"
    using assms by (subst dec.simps) simp
  then have 1: "length (dec n) = length (dec (n div 10)) + 1"
    by simp
  have "dec (n div 10) = dec (n div 10 div 10) @ [digit_char (n div 10 mod 10)]"
    using assms by (subst dec.simps) simp
  then have 2: "length (dec (n div 10)) = length (dec (n div 10 div 10)) + 1"
    by simp
  show ?thesis
    using 1 2 length_dec_pos [of "n div 10 div 10"] by linarith
qed

lemma fmt_02_large: "100 \<le> n \<Longrightarrow> fmt_02 n = dec n"
  using length_dec_ge [of n] by (simp add: fmt_02_def)

lemma digit_chars: "map digit_char [0..<10] = ''0123456789''"
  by (simp add: digit_char_def upt_rec)

lemma dec_length_bounds:
  "n < 10 ^ length (dec n) \<and> (n = 0 \<or> 10 ^ (length (dec n) - 1) \<le> n)"
proof (induction n rule: dec.induct)
  case (1 n)
  show ?case
  proof (cases "n < 10")
    case True
    then show ?thesis
      by (subst dec.simps, subst dec.simps) auto
  next
    case False
    define k where "k = length (dec (n div 10))"
    have d: "dec n = dec (n div 10) @ [digit_char (n mod 10)]"
      using False by (subst dec.simps) simp
    have l: "length (dec n) = k + 1"
      by (simp add: d k_def)
    have k: "0 < k"
      unfolding k_def by (rule length_dec_pos)
    from 1 False have IH: "n div 10 < 10 ^ k" "10 ^ (k - 1) \<le> n div 10"
      by (auto simp: k_def)
    have "n < 10 * 10 ^ k"
      using IH(1) by (simp add: div_less_iff_less_mult mult.commute)
    moreover have "10 * 10 ^ (k - 1) \<le> n"
      using IH(2) by (simp add: less_eq_div_iff_mult_less_eq mult.commute)
    moreover have "(10::nat) * 10 ^ (k - 1) = 10 ^ k"
      using k by (cases k) simp_all
    ultimately show ?thesis
      by (simp add: l)
  qed
qed

lemma two_digits_bound: "(unat (s::ulong) div 75) mod 60 < 100" "unat s mod 75 < 100"
proof -
  have "(unat s div 75) mod 60 < 60" by simp
  then show "(unat s div 75) mod 60 < 100" by linarith
  have "unat s mod 75 < 75" by simp
  then show "unat s mod 75 < 100" by linarith
qed

lemma fmt_02_minutes:
  "fmt_02 m = (if m < 100 then [digit_char (m div 10), digit_char (m mod 10)] else dec m)"
  by (simp add: fmt_02_small fmt_02_large)

lemma mmssff_text:
  "mmssff_from_sectors s =
     fmt_02 (unat s div 4500) @ '':'' @ fmt_02 ((unat s div 75) mod 60) @ '':'' @
     fmt_02 (unat s mod 75)"
  by (simp only: mmssff_from_sectors_def unat_minutes unat_seconds unat_frames)

lemma split_three:
  "split_colon (fmt_02 m @ '':'' @ fmt_02 s @ '':'' @ fmt_02 f) = [fmt_02 m, fmt_02 s, fmt_02 f]"
  by (simp add: split_colon_cons split_colon_plain fmt_02_no_colon)

text \<open>
  Claim C5. For every sector index \<open>s\<close>, the text printed by \<open>mmssff_from_sectors\<close> consists
  of three fields joined by colons: minutes \<open>s / 4500\<close>, seconds \<open>(s / 75) mod 60\<close> and
  frames \<open>s mod 75\<close>. Seconds and frames are printed with exactly two decimal digits, and
  so are minutes below 100; larger minutes are printed with all their decimal digits and
  no leading zero. Frames is below 75 and seconds below 60. Reading the three fields back
  as decimal numbers gives the three numbers, and \<open>MM * 4500 + SS * 75 + FF\<close> gives \<open>s\<close>
  back, from the three numbers as well as from the printed text.
\<close>

theorem timecode_law:
  "unat (minutes s) = unat s div 4500 \<and>
   unat (seconds s) = (unat s div 75) mod 60 \<and>
   unat (frames s) = unat s mod 75 \<and>
   unat (frames s) < 75 \<and>
   unat (minutes s) * 4500 + unat (seconds s) * 75 + unat (frames s) = unat s \<and>
   sectors_from_mmssff (mmssff_from_sectors s) = Some (unat s) \<and>
   mmssff_from_sectors s =
     (if unat s div 4500 < 100
      then [digit_char (unat s div 4500 div 10), digit_char (unat s div 4500 mod 10)]
      else dec (unat s div 4500)) @ '':'' @
     [digit_char ((unat s div 75) mod 60 div 10), digit_char ((unat s div 75) mod 60 mod 10)] @
     '':'' @
     [digit_char (unat s mod 75 div 10), digit_char (unat s mod 75 mod 10)] \<and>
   map digit_char [0..<10] = ''0123456789'' \<and>
   undec (dec (unat s div 4500)) = unat s div 4500 \<and>
   set (dec (unat s div 4500)) \<subseteq> set ''0123456789'' \<and>
   unat s div 4500 < 10 ^ length (dec (unat s div 4500)) \<and>
   (unat s div 4500 = 0 \<or> 10 ^ (length (dec (unat s div 4500)) - 1) \<le> unat s div 4500) \<and>
   map undec (split_colon (mmssff_from_sectors s)) =
     [unat s div 4500, (unat s div 75) mod 60, unat s mod 75] \<and>
   unat (seconds s) < 60"
proof -
  have 1: "unat (minutes s) = unat s div 4500" by (rule unat_minutes)
  have 2: "unat (seconds s) = (unat s div 75) mod 60" by (rule unat_seconds)
  have 3: "unat (frames s) = unat s mod 75" by (rule unat_frames)
  have 4: "unat (frames s) < 75" by (simp add: 3)
  have 5: "unat (minutes s) * 4500 + unat (seconds s) * 75 + unat (frames s) = unat s"
    by (simp only: 1 2 3 mmssff_arith)
  have 6: "sectors_from_mmssff (mmssff_from_sectors s) = Some (unat s)"
    by (simp only: mmssff_text sectors_from_three mmssff_arith)
  have 7: "mmssff_from_sectors s =
     (if unat s div 4500 < 100
      then [digit_char (unat s div 4500 div 10), digit_char (unat s div 4500 mod 10)]
      else dec (unat s div 4500)) @ '':'' @
     [digit_char ((unat s div 75) mod 60 div 10), digit_char ((unat s div 75) mod 60 mod 10)] @
     '':'' @
     [digit_char (unat s mod 75 div 10), digit_char (unat s mod 75 mod 10)]"
    by (simp only: mmssff_text fmt_02_minutes [symmetric] fmt_02_small [OF two_digits_bound(1)]
        fmt_02_small [OF two_digits_bound(2)])
  have 8: "map digit_char [0..<10] = ''0123456789''" by (rule digit_chars)
  have 9: "undec (dec (unat s div 4500)) = unat s div 4500" by (rule undec_dec)
  have 10: "set (dec (unat s div 4500)) \<subseteq> set ''0123456789''" by (rule dec_digits)
  note 11 = dec_length_bounds [of "unat s div 4500"]
  have 12: "map undec (split_colon (mmssff_from_sectors s)) =
     [unat s div 4500, (unat s div 75) mod 60, unat s mod 75]"
    by (simp only: mmssff_text split_three list.map undec_fmt_02)
  have 13: "unat (seconds s) < 60" by (simp add: 2)
  from 1 2 3 4 5 6 7 8 9 10 11 12 13 show ?thesis
    by (intro conjI) (simp_all only:)
qed

section \<open>The parser's verdicts\<close>

lemmas parser_eval = scan_chunks.simps chunk_step_def fmt_chunk_def data_chunk_def
  other_chunk_def fread_def fseek_cur_def ftell_def skip_pad_def skip_rest_def rd_le_u32_def
  rd_le_u16_def tag_RIFF_def tag_WAVE_def tag_fmt_def tag_data_def scan0_def LONG_MAX_def Let_def

lemma scan_both_seen:
  "scan_chunks f st = Inr (BothSeen, st') \<Longrightarrow> got_fmt st' \<and> got_data st'"
proof (induction f st rule: scan_chunks.induct)
  case (1 f st)
  from "1.prems" show ?case
    by (subst (asm) scan_chunks.simps) (auto split: step.splits if_splits dest: "1.IH")
qed

lemma scan_end_of_stream:
  "scan_chunks f st = Inr (EndOfStream, st') \<Longrightarrow> \<not> (got_fmt st \<and> got_data st) \<Longrightarrow>
     \<not> (got_fmt st' \<and> got_data st')"
proof (induction f st rule: scan_chunks.induct)
  case (1 f st)
  from "1.prems" show ?case
    by (subst (asm) scan_chunks.simps) (auto split: step.splits if_splits dest: "1.IH")
qed

lemma parse_wav_scanned:
  assumes "fread 12 f = (hdr12, f1)" and "length hdr12 = 12"
    and "take 4 hdr12 = tag_RIFF" and "take 4 (drop 8 hdr12) = tag_WAVE"
    and "scan_chunks f1 scan0 = Inr (ex, st)"
  shows "parse_wav f name =
           (if \<not> got_fmt st \<or> \<not> got_data st then fail MissingChunk name
            else if \<not> profile_ok st then fail UnsupportedFormat name
            else Inr (data_ofs st, data_size st))"
  by (simp only: parse_wav_def assms prod.case sum.case simp_thms if_True if_False)

text \<open>
  Claim C6. Once the chunk loop has seen a format chunk and a data chunk, \<open>parse_wav\<close>
  accepts exactly when the recorded format tag is 1, the channel count 2, the sample rate
  44100 and the bits per sample 16; with any other descriptor it fails as
  \<open>UnsupportedFormat\<close>, and the text it prints starts with the name of the source.
\<close>

theorem profile_validation:
  assumes "fread 12 f = (hdr12, f1)" and "length hdr12 = 12"
    and "take 4 hdr12 = tag_RIFF" and "take 4 (drop 8 hdr12) = tag_WAVE"
    and "scan_chunks f1 scan0 = Inr (ex, st)" and "got_fmt st" and "got_data st"
  shows "((\<exists>r. parse_wav f name = Inr r) \<longleftrightarrow>
            audioFormat st = 1 \<and> numChannels st = 2 \<and> sampleRate st = 44100 \<and>
            bitsPerSample st = 16) \<and>
         (\<not> (audioFormat st = 1 \<and> numChannels st = 2 \<and> sampleRate st = 44100 \<and>
             bitsPerSample st = 16) \<longrightarrow>
            parse_wav f name =
              Inl (UnsupportedFormat, name @ '' must be 44.1kHz, 16-bit, stereo PCM'' @ [newline]) \<and>
            sublist name (name @ '' must be 44.1kHz, 16-bit, stereo PCM'' @ [newline]))"
proof -
  have "parse_wav f name =
          (if profile_ok st then Inr (data_ofs st, data_size st)
           else fail UnsupportedFormat name)"
    using assms(6,7) by (simp add: parse_wav_scanned [OF assms(1-5)])
  then show ?thesis
    by (auto simp: fail_def profile_ok_def)
qed

theorem profile_validation_witness:
  "fread 12 \<lparr>content = wav_48k, pos = 0\<rparr> = (take 12 wav_48k, \<lparr>content = wav_48k, pos = 12\<rparr>) \<and>
   scan_chunks \<lparr>content = wav_48k, pos = 12\<rparr> scan0 =
     Inr (BothSeen, \<lparr>got_fmt = True, got_data = True, audioFormat = 1, numChannels = 2,
                    bitsPerSample = 16, sampleRate = 48000, data_ofs = 44, data_size = 4\<rparr>) \<and>
   parse_wav \<lparr>content = wav_48k, pos = 0\<rparr> ''a.wav'' =
     Inl (UnsupportedFormat, ''a.wav must be 44.1kHz, 16-bit, stereo PCM'' @ [newline])"
proof -
  let ?f = "\<lparr>content = wav_48k, pos = 0\<rparr>"
  let ?f1 = "\<lparr>content = wav_48k, pos = 12\<rparr>"
  let ?st = "\<lparr>got_fmt = True, got_data = True, audioFormat = 1, numChannels = 2,
              bitsPerSample = 16, sampleRate = 48000, data_ofs = 44, data_size = 4\<rparr>"
  have 1: "fread 12 ?f = (take 12 wav_48k, ?f1)"
    by (simp add: fread_def wav_48k_def)
  have 2: "scan_chunks ?f1 scan0 = Inr (BothSeen, ?st)"
    by (simp add: parser_eval wav_48k_def)
  have 3: "length (take 12 wav_48k) = 12" "take 4 (take 12 wav_48k) = tag_RIFF"
    "take 4 (drop 8 (take 12 wav_48k)) = tag_WAVE"
    by (simp_all add: wav_48k_def tag_RIFF_def tag_WAVE_def)
  show ?thesis
    using profile_validation [OF 1 3 2, of "''a.wav''"] 1 2 by simp
qed

text \<open>
  Claim C7, as amended. When the chunk loop is left at the end of the stream, that is at a
  chunk header that cannot be read in full, a format chunk or a data chunk is still
  unseen and \<open>parse_wav\<close> fails as \<open>MissingChunk\<close>. The text it prints names the source and
  reads "missing fmt or data chunk": it is the same whichever of the two chunks is absent.
\<close>

theorem missing_chunk_at_end_of_stream:
  assumes "fread 12 f = (hdr12, f1)" and "length hdr12 = 12"
    and "take 4 hdr12 = tag_RIFF" and "take 4 (drop 8 hdr12) = tag_WAVE"
    and "scan_chunks f1 scan0 = Inr (EndOfStream, st)"
  shows "\<not> (got_fmt st \<and> got_data st) \<and>
         parse_wav f name = Inl (MissingChunk, name @ '': missing fmt or data chunk'' @ [newline])"
proof -
  have "\<not> (got_fmt st \<and> got_data st)"
    using assms(5) by (rule scan_end_of_stream) (simp add: scan0_def)
  then show ?thesis
    by (auto simp: parse_wav_scanned [OF assms] fail_def)
qed

theorem missing_chunk_at_end_of_stream_witness:
  "fread 12 \<lparr>content = wav_no_fmt, pos = 0\<rparr> =
     (take 12 wav_no_fmt, \<lparr>content = wav_no_fmt, pos = 12\<rparr>) \<and>
   scan_chunks \<lparr>content = wav_no_fmt, pos = 12\<rparr> scan0 =
     Inr (EndOfStream, scan0\<lparr>data_ofs := 20, data_size := 4, got_data := True\<rparr>) \<and>
   parse_wav \<lparr>content = wav_no_fmt, pos = 0\<rparr> ''a.wav'' =
     Inl (MissingChunk, ''a.wav: missing fmt or data chunk'' @ [newline])"
proof -
  let ?f = "\<lparr>content = wav_no_fmt, pos = 0\<rparr>"
  let ?f1 = "\<lparr>content = wav_no_fmt, pos = 12\<rparr>"
  have 1: "fread 12 ?f = (take 12 wav_no_fmt, ?f1)"
    by (simp add: fread_def wav_no_fmt_def)
  have 2: "scan_chunks ?f1 scan0 =
             Inr (EndOfStream, scan0\<lparr>data_ofs := 20, data_size := 4, got_data := True\<rparr>)"
    by (simp add: parser_eval wav_no_fmt_def)
  have 3: "length (take 12 wav_no_fmt) = 12" "take 4 (take 12 wav_no_fmt) = tag_RIFF"
    "take 4 (drop 8 (take 12 wav_no_fmt)) = tag_WAVE"
    by (simp_all add: wav_no_fmt_def tag_RIFF_def tag_WAVE_def)
  show ?thesis
    using missing_chunk_at_end_of_stream [OF 1 3 2, of "''a.wav''"] 1 2 by simp
qed

text \<open>The claim as stated fails: a file without a format chunk and a file without a data
  chunk are rejected with one and the same error and text.\<close>

theorem missing_chunk_message_counterexample:
  "parse_wav \<lparr>content = wav_no_fmt, pos = 0\<rparr> ''a.wav'' =
     Inl (MissingChunk, ''a.wav: missing fmt or data chunk'' @ [newline]) \<and>
   parse_wav \<lparr>content = wav_no_data, pos = 0\<rparr> ''a.wav'' =
     Inl (MissingChunk, ''a.wav: missing fmt or data chunk'' @ [newline])"
  by (simp add: parse_wav_def parser_eval fail_def wav_no_fmt_def wav_no_data_def)

section \<open>Whole chunks\<close>

lemma length_le32 [simp]: "length (le32 n) = 4"
  by (simp add: le32_def)

lemma bit_below: "n < 2 ^ k \<Longrightarrow> bit (n::nat) i \<Longrightarrow> i < k"
  by (metis bit_take_bit_iff take_bit_nat_eq_self)

lemma rd_le_u32_le32:
  assumes "n < 4294967296"
  shows "rd_le_u32 (le32 n @ rest) = word_of_nat n"
proof -
  have n: "n < 2 ^ 32" using assms by simp
  show ?thesis
    unfolding rd_le_u32_def le32_def
    apply (rule bit_eqI)
    apply (auto simp: bit_simps dest: bit_below [OF n])
    subgoal for i by (cases "24 \<le> i") simp_all
    done
qed

lemma csize_facts:
  assumes "n < 4294967296"
  shows "unat (word_of_nat n :: ulong) = n"
    and "sint (word_of_nat n :: ulong) = int n"
    and "(word_of_nat n :: ulong) < 40 \<longleftrightarrow> n < 40"
    and "16 \<le> (word_of_nat n :: ulong) \<longleftrightarrow> 16 \<le> n"
    and "(word_of_nat n :: ulong) AND 1 \<noteq> 0 \<longleftrightarrow> odd n"
proof -
  show u: "unat (word_of_nat n :: ulong) = n"
    using assms by (simp add: unat_of_nat)
  show "sint (word_of_nat n :: ulong) = int n"
    using sint_small [of "word_of_nat n"] assms by (simp only: u)
  show "(word_of_nat n :: ulong) < 40 \<longleftrightarrow> n < 40"
    by (simp add: word_less_nat_alt u)
  show "16 \<le> (word_of_nat n :: ulong) \<longleftrightarrow> 16 \<le> n"
    by (simp add: word_le_nat_alt u)
  show "(word_of_nat n :: ulong) AND 1 \<noteq> 0 \<longleftrightarrow> odd n"
    by (simp add: even_word_def flip: even_word_iff)
qed

lemma fread_exact:
  assumes "drop (pos f) (content f) = bs @ rest"
  shows "fread (length bs) f = (bs, f\<lparr>pos := pos f + length bs\<rparr>)"
    and "drop (pos f + length bs) (content f) = rest"
proof -
  show "fread (length bs) f = (bs, f\<lparr>pos := pos f + length bs\<rparr>)"
    by (simp add: fread_def assms)
  have "drop (pos f + length bs) (content f) = drop (length bs) (drop (pos f) (content f))"
    by (simp add: add.commute)
  then show "drop (pos f + length bs) (content f) = rest"
    by (simp add: assms)
qed

lemma fseek_cur_ok:
  "0 \<le> off \<Longrightarrow> int (pos f) + off \<le> LONG_MAX \<Longrightarrow>
     fseek_cur off f = Some (f\<lparr>pos := pos f + nat off\<rparr>)"
  by (simp add: fseek_cur_def Let_def nat_add_distrib)

lemma skip_pad_ok:
  assumes "n < 4294967296" and "int (pos f) + int (padding n) \<le> LONG_MAX"
  shows "skip_pad (word_of_nat n) f = Some (f\<lparr>pos := pos f + padding n\<rparr>)"
proof (cases "odd n")
  case True
  then have "fseek_cur 1 f = Some (f\<lparr>pos := pos f + nat 1\<rparr>)"
    using assms(2) by (intro fseek_cur_ok) (simp_all add: padding_def)
  with True show ?thesis
    by (simp add: skip_pad_def csize_facts assms(1) padding_def)
next
  case False
  then show ?thesis
    by (simp add: skip_pad_def csize_facts assms(1) padding_def)
qed

lemma length_chunk_bytes:
  "length (chunk_bytes (tag, body)) = length tag + 4 + length body + padding (length body)"
  by (simp add: chunk_bytes_def padding_def)

lemma other_chunk_complete:
  assumes "n < 4294967296" and "int (pos f) + int n + int (padding n) \<le> LONG_MAX"
  shows "other_chunk (word_of_nat n) f st = Cont (f\<lparr>pos := pos f + n + padding n\<rparr>) st"
proof -
  have 1: "fseek_cur (int n) f = Some (f\<lparr>pos := pos f + n\<rparr>)"
    using assms(2) fseek_cur_ok [of "int n" f] by simp
  have 2: "skip_pad (word_of_nat n) (f\<lparr>pos := pos f + n\<rparr>) =
             Some (f\<lparr>pos := pos f + n + padding n\<rparr>)"
    using assms skip_pad_ok [of n "f\<lparr>pos := pos f + n\<rparr>"] by simp
  show ?thesis
    by (simp add: other_chunk_def csize_facts assms(1) 1 2)
qed

lemma data_chunk_complete:
  assumes "n < 4294967296" and "int (pos f) + int n + int (padding n) \<le> LONG_MAX"
  shows "data_chunk (word_of_nat n) f st =
           Cont (f\<lparr>pos := pos f + n + padding n\<rparr>)
                (st\<lparr>data_ofs := word_of_nat (pos f), data_size := word_of_nat n,
                    got_data := True\<rparr>)"
proof -
  have 0: "ftell f = int (pos f)"
    using assms(2) by (simp add: ftell_def)
  have 1: "fseek_cur (int n) f = Some (f\<lparr>pos := pos f + n\<rparr>)"
    using assms(2) fseek_cur_ok [of "int n" f] by simp
  have 2: "skip_pad (word_of_nat n) (f\<lparr>pos := pos f + n\<rparr>) =
             Some (f\<lparr>pos := pos f + n + padding n\<rparr>)"
    using assms skip_pad_ok [of n "f\<lparr>pos := pos f + n\<rparr>"] by simp
  show ?thesis
    by (simp add: data_chunk_def csize_facts assms(1) 0 1 2)
qed

lemma fmt_chunk_complete:
  assumes "drop (pos f) (content f) = body @ rest"
    and "length body < 4294967296"
    and "int (pos f) + int (length body) + int (padding (length body)) \<le> LONG_MAX"
  shows "fmt_chunk (word_of_nat (length body)) f st =
           Cont (f\<lparr>pos := pos f + length body + padding (length body)\<rparr>)
                (if 16 \<le> length body
                 then st\<lparr>audioFormat := rd_le_u16 (take 40 body),
                         numChannels := rd_le_u16 (drop 2 (take 40 body)),
                         sampleRate := rd_le_u32 (drop 4 (take 40 body)),
                         bitsPerSample := rd_le_u16 (drop 14 (take 40 body)),
                         got_fmt := True\<rparr>
                 else st)"
proof -
  let ?n = "length body"
  let ?need = "if ?n < 40 then ?n else 40"
  have split: "drop (pos f) (content f) = take ?need body @ (drop ?need body @ rest)"
    using assms(1) by simp
  have len: "length (take ?need body) = ?need"
    by simp
  have 1: "fread ?need f = (take ?need body, f\<lparr>pos := pos f + ?need\<rparr>)"
    using fread_exact(1) [OF split] by (simp only: len)
  have tk: "take ?need body = take 40 body"
    by simp
  have 2: "skip_rest ?need (word_of_nat ?n) (f\<lparr>pos := pos f + ?need\<rparr>) =
             Some (f\<lparr>pos := pos f + ?n\<rparr>)"
    using assms(2,3) fseek_cur_ok [of "int ?n - 40" "f\<lparr>pos := pos f + 40\<rparr>"]
    by (auto simp: skip_rest_def csize_facts)
  have 3: "skip_pad (word_of_nat ?n) (f\<lparr>pos := pos f + ?n\<rparr>) =
             Some (f\<lparr>pos := pos f + ?n + padding ?n\<rparr>)"
    using assms(2,3) skip_pad_ok [of ?n "f\<lparr>pos := pos f + ?n\<rparr>"] by simp
  show ?thesis
    unfolding fmt_chunk_def Let_def csize_facts [OF assms(2)] 1 prod.case len tk 2
    by (simp add: 3)
qed

lemma chunk_step_complete:
  assumes "drop (pos f) (content f) = chunk_bytes (tag, body) @ rest"
    and "length tag = 4" and "length body < 4294967296"
    and "int (pos f) + int (length (chunk_bytes (tag, body))) \<le> LONG_MAX"
  shows "chunk_step f st =
           Cont (f\<lparr>pos := pos f + length (chunk_bytes (tag, body))\<rparr>)
             (if tag = tag_fmt then
                (if 16 \<le> length body
                 then st\<lparr>audioFormat := rd_le_u16 (take 40 body),
                         numChannels := rd_le_u16 (drop 2 (take 40 body)),
                         sampleRate := rd_le_u32 (drop 4 (take 40 body)),
                         bitsPerSample := rd_le_u16 (drop 14 (take 40 body)),
                         got_fmt := True\<rparr>
                 else st)
              else if tag = tag_data then
                st\<lparr>data_ofs := word_of_nat (pos f + 8), data_size := word_of_nat (length body),
                   got_data := True\<rparr>
              else st)"
proof -
  let ?n = "length body"
  let ?hdr = "tag @ le32 ?n"
  let ?tail = "(if odd ?n then [0] else []) @ rest"
  let ?f1 = "f\<lparr>pos := pos f + 8\<rparr>"
  have len: "length ?hdr = 8"
    using assms(2) by simp
  have split: "drop (pos f) (content f) = ?hdr @ (body @ ?tail)"
    using assms(1) by (simp add: chunk_bytes_def)
  have rd: "fread 8 f = (?hdr, ?f1)"
    using fread_exact(1) [OF split] by (simp only: len)
  have after: "drop (pos ?f1) (content ?f1) = body @ ?tail"
    using fread_exact(2) [OF split] by (simp only: len) simp
  have tg: "take 4 ?hdr = tag" and sz: "rd_le_u32 (drop 4 ?hdr) = word_of_nat ?n"
    using assms(2,3) rd_le_u32_le32 [of ?n "[]"] by simp_all
  have bound: "int (pos ?f1) + int ?n + int (padding ?n) \<le> LONG_MAX"
    using assms(2,4) by (simp add: length_chunk_bytes)
  have endpos: "pos f + length (chunk_bytes (tag, body)) = pos f + 8 + ?n + padding ?n"
    using assms(2) by (simp add: length_chunk_bytes)
  have step: "chunk_step f st =
     (if tag = tag_fmt then fmt_chunk (word_of_nat ?n) ?f1 st
      else if tag = tag_data then data_chunk (word_of_nat ?n) ?f1 st
      else other_chunk (word_of_nat ?n) ?f1 st)"
    unfolding chunk_step_def rd prod.case Let_def tg sz using len by simp
  show ?thesis
    unfolding step endpos
    using fmt_chunk_complete [OF after assms(3) bound, of st]
      data_chunk_complete [OF assms(3) bound, of st]
      other_chunk_complete [OF assms(3) bound, of st]
    by simp
qed

lemma chunk_step_cut_fmt:
  assumes "drop (pos f) (content f) = tag_fmt @ le32 n @ part"
    and "n < 16" and "length part < n"
  shows "chunk_step f st = Fail TruncatedFmtBody"
proof -
  let ?hdr = "tag_fmt @ le32 n"
  let ?f1 = "f\<lparr>pos := pos f + 8\<rparr>"
  have len: "length ?hdr = 8"
    by (simp add: tag_fmt_def)
  have split: "drop (pos f) (content f) = ?hdr @ part"
    using assms(1) by simp
  have rd: "fread 8 f = (?hdr, ?f1)"
    using fread_exact(1) [OF split] by (simp only: len)
  have after: "drop (pos ?f1) (content ?f1) = part"
    using fread_exact(2) [OF split] by (simp only: len) simp
  have n: "n < 4294967296"
    using assms(2) by simp
  have tg: "take 4 ?hdr = tag_fmt" and sz: "rd_le_u32 (drop 4 ?hdr) = word_of_nat n"
    using n rd_le_u32_le32 [of n "[]"] by (simp_all add: tag_fmt_def)
  have step: "chunk_step f st = fmt_chunk (word_of_nat n) ?f1 st"
    unfolding chunk_step_def rd prod.case Let_def tg sz using len by simp
  have "fread n ?f1 = (part, ?f1\<lparr>pos := pos ?f1 + length part\<rparr>)"
    using after assms(3) by (simp add: fread_def)
  then show ?thesis
    unfolding step using assms(2,3) by (simp add: fmt_chunk_def csize_facts n)
qed

text \<open>Any chunk but a format chunk of 16 bytes or more leaves \<open>got_fmt\<close> as it was, and
  the parser gets over it as soon as its header is there: the seeks of the parser may go
  past the end of the file. Of a format chunk the body has to be there as well.\<close>

lemma chunk_step_no_header:
  "length (drop (pos f) (content f)) < 8 \<Longrightarrow> chunk_step f st = Eof"
  by (simp add: chunk_step_def fread_def)

lemma chunk_step_skips:
  assumes hdr: "8 \<le> length (drop (pos f) (content f))"
    and n: "n = declared (drop (pos f) (content f))"
    and bound: "int (pos f) + 8 + int n + int (padding n) \<le> LONG_MAX"
    and short: "take 4 (drop (pos f) (content f)) = tag_fmt \<longrightarrow>
                  n < 16 \<and> 8 + n \<le> length (drop (pos f) (content f))"
  shows "\<exists>st'. chunk_step f st = Cont (f\<lparr>pos := pos f + 8 + n + padding n\<rparr>) st' \<and>
               got_fmt st' = got_fmt st \<and>
               (take 4 (drop (pos f) (content f)) = tag_fmt \<longrightarrow> st' = st)"
proof -
  let ?d = "drop (pos f) (content f)"
  let ?hdr = "take 8 ?d"
  let ?f1 = "f\<lparr>pos := pos f + 8\<rparr>"
  have len: "length ?hdr = 8"
    using hdr by simp
  have rd: "fread 8 f = (?hdr, ?f1)"
    by (simp add: fread_def Let_def len del: length_take)
  have tg: "take 4 ?hdr = take 4 ?d"
    by simp
  have d4: "drop 4 ?hdr = take 4 (drop 4 ?d)"
    by (simp add: drop_take)
  have "rd_le_u32 (drop 4 ?hdr) = rd_le_u32 (drop 4 ?d)"
    unfolding d4 by (simp add: rd_le_u32_def)
  then have sz: "rd_le_u32 (drop 4 ?hdr) = word_of_nat n"
    by (simp add: n declared_def)
  have n32: "n < 4294967296"
    unfolding n declared_def by (rule rd_le_u32_less)
  have b1: "int (pos ?f1) + int n + int (padding n) \<le> LONG_MAX"
    using bound by simp
  have step: "chunk_step f st =
     (if take 4 ?d = tag_fmt then fmt_chunk (word_of_nat n) ?f1 st
      else if take 4 ?d = tag_data then data_chunk (word_of_nat n) ?f1 st
      else other_chunk (word_of_nat n) ?f1 st)"
    unfolding chunk_step_def rd prod.case Let_def tg sz using len by simp
  show ?thesis
  proof (cases "take 4 ?d = tag_fmt")
    case True
    with short have s: "n < 16" "8 + n \<le> length ?d"
      by simp_all
    let ?body = "take n (drop 8 ?d)"
    have lb: "length ?body = n"
      using s(2) by simp
    have "drop (pos ?f1) (content ?f1) = drop 8 ?d"
      by (simp add: add.commute)
    also have "\<dots> = ?body @ drop n (drop 8 ?d)"
      by (simp only: append_take_drop_id)
    finally have after: "drop (pos ?f1) (content ?f1) = ?body @ drop n (drop 8 ?d)" .
    have "fmt_chunk (word_of_nat (length ?body)) ?f1 st =
            Cont (?f1\<lparr>pos := pos ?f1 + length ?body + padding (length ?body)\<rparr>)
              (if 16 \<le> length ?body
               then st\<lparr>audioFormat := rd_le_u16 (take 40 ?body),
                       numChannels := rd_le_u16 (drop 2 (take 40 ?body)),
                       sampleRate := rd_le_u32 (drop 4 (take 40 ?body)),
                       bitsPerSample := rd_le_u16 (drop 14 (take 40 ?body)),
                       got_fmt := True\<rparr>
               else st)"
      using after
    proof (rule fmt_chunk_complete)
      show "length ?body < 4294967296"
        using n32 by (simp only: lb)
      show "int (pos ?f1) + int (length ?body) + int (padding (length ?body)) \<le> LONG_MAX"
        using b1 by (simp only: lb)
    qed
    then have "fmt_chunk (word_of_nat n) ?f1 st = Cont (f\<lparr>pos := pos f + 8 + n + padding n\<rparr>) st"
      using s(1) by (simp only: lb) simp
    with True step show ?thesis
      by simp
  next
    case False
    then show ?thesis
      unfolding step
      using data_chunk_complete [OF n32 b1, of st] other_chunk_complete [OF n32 b1, of st]
      by simp
  qed
qed

lemma declared_le32:
  assumes "length tag = 4" and "n < 4294967296"
  shows "declared (tag @ le32 n @ rest) = n"
proof -
  have "drop 4 (tag @ le32 n @ rest) = le32 n @ rest"
    using assms(1) by simp
  then have "declared (tag @ le32 n @ rest) = unat (word_of_nat n :: ulong)"
    by (simp only: declared_def rd_le_u32_le32 [OF assms(2)])
  then show ?thesis
    by (simp only: csize_facts(1) [OF assms(2)])
qed

lemma length_chunk_image:
  "length (chunk_image c) = length (c_tag c) + 4 + length (c_body c) + length (c_pad c)"
  by (simp add: chunk_image_def)

lemma scan_short_chunks:
  assumes "drop (pos f) (content f) = concat (map chunk_image cs) @ ending"
    and "\<forall>c\<in>set cs. length (c_tag c) = 4 \<and> length (c_body c) < 4294967296 \<and>
                      length (c_pad c) = padding (length (c_body c))"
    and "\<forall>c\<in>set cs. c_tag c = tag_fmt \<longrightarrow> length (c_body c) < 16"
    and "int (pos f) + int (length (concat (map chunk_image cs))) \<le> LONG_MAX"
    and "\<not> got_fmt st"
  shows "\<exists>st'. scan_chunks f st =
                 scan_chunks (f\<lparr>pos := pos f + length (concat (map chunk_image cs))\<rparr>) st' \<and>
               \<not> got_fmt st'"
  using assms
proof (induction cs arbitrary: f st)
  case Nil
  then show ?case
    by (intro exI [of _ st]) simp
next
  case (Cons c cs)
  let ?n = "length (c_body c)"
  let ?len = "length (chunk_image c)"
  let ?f' = "f\<lparr>pos := pos f + ?len\<rparr>"
  let ?rest = "c_body c @ c_pad c @ concat (map chunk_image cs) @ ending"
  have split: "drop (pos f) (content f) = c_tag c @ le32 ?n @ ?rest"
    using Cons.prems(1) by (simp add: chunk_image_def [of c])
  have tag: "length (c_tag c) = 4" and body: "?n < 4294967296"
    and pad: "length (c_pad c) = padding ?n"
    and short: "c_tag c = tag_fmt \<longrightarrow> ?n < 16"
    using Cons.prems(2,3) by simp_all
  have len: "?len = 8 + ?n + padding ?n"
    using tag pad by (simp add: length_chunk_image)
  have hdr: "8 \<le> length (drop (pos f) (content f))"
    unfolding split using tag by simp
  have n: "?n = declared (drop (pos f) (content f))"
    unfolding split using tag body by (rule declared_le32 [symmetric])
  have bound: "int (pos f) + 8 + int ?n + int (padding ?n) \<le> LONG_MAX"
    using Cons.prems(4) len by simp
  have tk: "take 4 (drop (pos f) (content f)) = c_tag c"
    unfolding split using tag by simp
  have sh: "take 4 (drop (pos f) (content f)) = tag_fmt \<longrightarrow>
              ?n < 16 \<and> 8 + ?n \<le> length (drop (pos f) (content f))"
    unfolding tk using short tag by (auto simp: split)
  obtain st' where step: "chunk_step f st = Cont (f\<lparr>pos := pos f + 8 + ?n + padding ?n\<rparr>) st'"
    and nofmt: "\<not> got_fmt st'"
    using chunk_step_skips [OF hdr n bound sh, of st] Cons.prems(5) by auto
  have step': "chunk_step f st = Cont ?f' st'"
    using step by (simp only: len add.assoc)
  have rest: "drop (pos ?f') (content ?f') = concat (map chunk_image cs) @ ending"
  proof -
    have "drop (pos f) (content f) = chunk_image c @ (concat (map chunk_image cs) @ ending)"
      using Cons.prems(1) by simp
    from fread_exact(2) [OF this] show ?thesis by simp
  qed
  have bound': "int (pos ?f') + int (length (concat (map chunk_image cs))) \<le> LONG_MAX"
    using Cons.prems(4) by simp
  have "\<exists>st''. scan_chunks ?f' st' =
          scan_chunks (?f'\<lparr>pos := pos ?f' + length (concat (map chunk_image cs))\<rparr>) st'' \<and>
          \<not> got_fmt st''"
    using Cons.prems(2,3) by (intro Cons.IH [OF rest _ _ bound' nofmt]) simp_all
  moreover have "scan_chunks f st = scan_chunks ?f' st'"
    using nofmt by (subst scan_chunks.simps, simp only: step' step.case) simp
  moreover have "?f'\<lparr>pos := pos ?f' + length (concat (map chunk_image cs))\<rparr> =
                 f\<lparr>pos := pos f + length (concat (map chunk_image (c # cs)))\<rparr>"
    by (simp add: add.assoc)
  ultimately show ?case
    by (simp only:)
qed

lemma scan_cut_short:
  assumes "length (drop (pos f) (content f)) < 8 \<or>
           length (drop (pos f) (content f)) <
             8 + declared (drop (pos f) (content f)) +
             padding (declared (drop (pos f) (content f)))"
    and "8 \<le> length (drop (pos f) (content f)) \<and>
         take 4 (drop (pos f) (content f)) = tag_fmt \<longrightarrow>
           declared (drop (pos f) (content f)) < 16 \<and>
           8 + declared (drop (pos f) (content f)) \<le> length (drop (pos f) (content f))"
    and "int (pos f) + int (length (drop (pos f) (content f))) + 4294967296 \<le> LONG_MAX"
    and "\<not> got_fmt st"
  shows "\<exists>st'. scan_chunks f st = Inr (EndOfStream, st') \<and> \<not> got_fmt st'"
proof (cases "length (drop (pos f) (content f)) < 8")
  case True
  then have "chunk_step f st = Eof"
    by (rule chunk_step_no_header)
  then have "scan_chunks f st = Inr (EndOfStream, st)"
    by (subst scan_chunks.simps) simp
  with assms(4) show ?thesis
    by simp
next
  case False
  let ?d = "drop (pos f) (content f)"
  define n where "n = declared ?d"
  let ?f' = "f\<lparr>pos := pos f + 8 + n + padding n\<rparr>"
  have hdr: "8 \<le> length ?d"
    using False by simp
  have cut: "length ?d < 8 + n + padding n"
    using assms(1) False by (simp add: n_def)
  have n32: "n < 4294967296"
    unfolding n_def declared_def by (rule rd_le_u32_less)
  have "padding n \<le> 1"
    by (simp add: padding_def)
  then have bound: "int (pos f) + 8 + int n + int (padding n) \<le> LONG_MAX"
    using assms(3) hdr n32 by linarith
  have sh: "take 4 ?d = tag_fmt \<longrightarrow> n < 16 \<and> 8 + n \<le> length ?d"
    using assms(2) hdr by (simp add: n_def)
  obtain st' where step: "chunk_step f st = Cont ?f' st'" and nofmt: "\<not> got_fmt st'"
    using chunk_step_skips [OF hdr n_def bound sh, of st] assms(4) by auto
  have "length (content f) - pos f < 8 + n + padding n"
    using cut by simp
  then have "length (drop (pos ?f') (content ?f')) < 8"
    by simp
  then have "chunk_step ?f' st' = Eof"
    by (rule chunk_step_no_header)
  then have "scan_chunks ?f' st' = Inr (EndOfStream, st')"
    by (subst scan_chunks.simps) simp
  moreover have "scan_chunks f st = scan_chunks ?f' st'"
    using nofmt by (subst scan_chunks.simps, simp only: step step.case) simp
  ultimately show ?thesis
    using nofmt by simp
qed


lemma scan_no_format:
  assumes "drop (pos f) (content f) = concat (map chunk_image cs) @ ending"
    and "\<forall>c\<in>set cs. length (c_tag c) = 4 \<and> length (c_body c) < 4294967296 \<and>
                      length (c_pad c) = padding (length (c_body c))"
    and "\<forall>c\<in>set cs. c_tag c = tag_fmt \<longrightarrow> length (c_body c) < 16"
    and "length ending < 8 \<or> length ending < 8 + declared ending + padding (declared ending)"
    and "8 \<le> length ending \<and> take 4 ending = tag_fmt \<longrightarrow>
           declared ending < 16 \<and> 8 + declared ending \<le> length ending"
    and "int (pos f) + int (length (concat (map chunk_image cs) @ ending)) + 4294967296
           \<le> LONG_MAX"
    and "\<not> got_fmt st"
  shows "\<exists>st'. scan_chunks f st = Inr (EndOfStream, st') \<and> \<not> got_fmt st'"
proof -
  let ?L = "length (concat (map chunk_image cs))"
  let ?f' = "f\<lparr>pos := pos f + ?L\<rparr>"
  have b: "int (pos f) + int ?L \<le> LONG_MAX"
    using assms(6) by simp
  obtain st1 where 1: "scan_chunks f st = scan_chunks ?f' st1" and nofmt: "\<not> got_fmt st1"
    using scan_short_chunks [OF assms(1,2,3) b assms(7)] by blast
  have d: "drop (pos ?f') (content ?f') = ending"
    using fread_exact(2) [OF assms(1)] by simp
  have b': "int (pos ?f') + int (length (drop (pos ?f') (content ?f'))) + 4294967296 \<le> LONG_MAX"
    unfolding d using assms(6) by simp
  have "\<exists>st'. scan_chunks ?f' st1 = Inr (EndOfStream, st') \<and> \<not> got_fmt st'"
    using assms(4,5) b' nofmt unfolding d [symmetric] by (rule scan_cut_short)
  then show ?thesis
    by (simp only: 1)
qed

lemma scan_cut_format:
  assumes "drop (pos f) (content f) = concat (map chunk_image cs) @ tag_fmt @ le32 m @ part"
    and "\<forall>c\<in>set cs. length (c_tag c) = 4 \<and> length (c_body c) < 4294967296 \<and>
                      length (c_pad c) = padding (length (c_body c))"
    and "\<forall>c\<in>set cs. c_tag c = tag_fmt \<longrightarrow> length (c_body c) < 16"
    and "m < 16" and "length part < m"
    and "int (pos f) + int (length (concat (map chunk_image cs))) \<le> LONG_MAX"
    and "\<not> got_fmt st"
  shows "scan_chunks f st = Inl TruncatedFmtBody"
proof -
  let ?L = "length (concat (map chunk_image cs))"
  let ?f' = "f\<lparr>pos := pos f + ?L\<rparr>"
  obtain st1 where 1: "scan_chunks f st = scan_chunks ?f' st1"
    using scan_short_chunks [OF assms(1,2,3,6,7)] by blast
  have d: "drop (pos ?f') (content ?f') = tag_fmt @ le32 m @ part"
    using fread_exact(2) [OF assms(1)] by simp
  have "chunk_step ?f' st1 = Fail TruncatedFmtBody"
    using d assms(4,5) by (rule chunk_step_cut_fmt)
  then have "scan_chunks ?f' st1 = Inl TruncatedFmtBody"
    by (subst scan_chunks.simps) simp
  then show ?thesis
    by (simp only: 1)
qed

lemma short_fmt_skipped:
  assumes "drop (pos g) (content g) = tag_fmt @ le32 n @ rest"
    and "n < 16" and "n \<le> length rest"
    and "int (pos g) + 8 + int n + int (padding n) \<le> LONG_MAX"
  shows "chunk_step g st = Cont (g\<lparr>pos := pos g + 8 + n + padding n\<rparr>) st"
proof -
  have t: "length tag_fmt = 4"
    by (simp add: tag_fmt_def)
  have n32: "n < 4294967296"
    using assms(2) by simp
  have hdr: "8 \<le> length (drop (pos g) (content g))"
    unfolding assms(1) using t by simp
  have n: "n = declared (drop (pos g) (content g))"
    unfolding assms(1) using t n32 by (rule declared_le32 [symmetric])
  have tk: "take 4 (drop (pos g) (content g)) = tag_fmt"
    unfolding assms(1) using t by simp
  have sh: "take 4 (drop (pos g) (content g)) = tag_fmt \<longrightarrow>
              n < 16 \<and> 8 + n \<le> length (drop (pos g) (content g))"
    using assms(2,3) t by (simp add: assms(1))
  from chunk_step_skips [OF hdr n assms(4) sh, of st] tk show ?thesis
    by auto
qed

lemma rd_take:
  assumes "16 \<le> length body"
  shows "rd_le_u16 (take 40 body) = rd_le_u16 body"
    and "rd_le_u16 (drop 2 (take 40 body)) = rd_le_u16 (drop 2 body)"
    and "rd_le_u32 (drop 4 (take 40 body)) = rd_le_u32 (drop 4 body)"
    and "rd_le_u16 (drop 14 (take 40 body)) = rd_le_u16 (drop 14 body)"
  using assms by (simp_all add: rd_le_u16_def rd_le_u32_def)

text \<open>On a file that starts with a whole format chunk of at least 16 bytes followed by a
  whole data chunk, the verdict of \<open>parse_wav\<close> is decided by the bytes of the format body
  at the offsets 0, 2, 4 and 14, and the payload it hands out is the body of the data
  chunk.\<close>

lemma format_then_data:
  assumes "length size4 = 4"
    and "16 \<le> length body" and "length body < 4294967296"
    and "length payload < 4294967296"
    and "int (length (tag_RIFF @ size4 @ tag_WAVE @ chunk_bytes (tag_fmt, body) @
                       chunk_bytes (tag_data, payload) @ rest)) \<le> LONG_MAX"
  shows "parse_wav \<lparr>content = tag_RIFF @ size4 @ tag_WAVE @ chunk_bytes (tag_fmt, body) @
                                 chunk_bytes (tag_data, payload) @ rest, pos = 0\<rparr> name =
           (if rd_le_u16 body = 1 \<and> rd_le_u16 (drop 2 body) = 2 \<and>
               rd_le_u32 (drop 4 body) = 44100 \<and> rd_le_u16 (drop 14 body) = 16
            then Inr (word_of_nat (28 + length body + padding (length body)),
                      word_of_nat (length payload))
            else Inl (UnsupportedFormat,
                      name @ '' must be 44.1kHz, 16-bit, stereo PCM'' @ [newline]))"
proof -
  let ?c1 = "chunk_bytes (tag_fmt, body)"
  let ?c2 = "chunk_bytes (tag_data, payload)"
  let ?bytes = "tag_RIFF @ size4 @ tag_WAVE @ ?c1 @ ?c2 @ rest"
  let ?f = "\<lparr>content = ?bytes, pos = 0\<rparr>"
  let ?hdr = "tag_RIFF @ size4 @ tag_WAVE"
  let ?f1 = "?f\<lparr>pos := pos ?f + length ?hdr\<rparr>"
  let ?f2 = "?f1\<lparr>pos := pos ?f1 + length ?c1\<rparr>"
  let ?f3 = "?f2\<lparr>pos := pos ?f2 + length ?c2\<rparr>"
  let ?st1 = "scan0\<lparr>audioFormat := rd_le_u16 (take 40 body),
                     numChannels := rd_le_u16 (drop 2 (take 40 body)),
                     sampleRate := rd_le_u32 (drop 4 (take 40 body)),
                     bitsPerSample := rd_le_u16 (drop 14 (take 40 body)),
                     got_fmt := True\<rparr>"
  let ?st2 = "?st1\<lparr>data_ofs := word_of_nat (pos ?f2 + 8),
                     data_size := word_of_nat (length payload), got_data := True\<rparr>"
  have len: "length ?hdr = 12"
    using assms(1) by (simp add: tag_RIFF_def tag_WAVE_def)
  have t: "length tag_fmt = 4" "length tag_data = 4" "tag_data \<noteq> tag_fmt"
    by (simp_all add: tag_fmt_def tag_data_def)
  have split: "drop (pos ?f) (content ?f) = ?hdr @ (?c1 @ ?c2 @ rest)"
    by simp
  have rd: "fread 12 ?f = (?hdr, ?f1)"
    using fread_exact(1) [OF split] by (simp only: len)
  have tags: "take 4 ?hdr = tag_RIFF" "take 4 (drop 8 ?hdr) = tag_WAVE"
    using assms(1) by (simp_all add: tag_RIFF_def tag_WAVE_def)
  have after1: "drop (pos ?f1) (content ?f1) = ?c1 @ (?c2 @ rest)"
    using fread_exact(2) [OF split] by simp
  have b1: "int (pos ?f1) + int (length ?c1) \<le> LONG_MAX"
    using assms(5) by simp
  have s1: "chunk_step ?f1 scan0 = Cont ?f2 ?st1"
    using chunk_step_complete [OF after1 t(1) assms(3) b1, of scan0] assms(2) by simp
  have after2: "drop (pos ?f2) (content ?f2) = ?c2 @ rest"
    using fread_exact(2) [OF after1] by simp
  have b2: "int (pos ?f2) + int (length ?c2) \<le> LONG_MAX"
    using assms(5) by simp
  have s2: "chunk_step ?f2 ?st1 = Cont ?f3 ?st2"
    using chunk_step_complete [OF after2 t(2) assms(4) b2, of ?st1] t(3) by simp
  have "scan_chunks ?f2 ?st1 = Inr (BothSeen, ?st2)"
    by (subst scan_chunks.simps, simp only: s2 step.case) simp
  moreover have "scan_chunks ?f1 scan0 = scan_chunks ?f2 ?st1"
    by (subst scan_chunks.simps, simp only: s1 step.case) (simp add: scan0_def)
  ultimately have scan: "scan_chunks ?f1 scan0 = Inr (BothSeen, ?st2)"
    by (simp only:)
  have ofs: "pos ?f2 + 8 = 28 + length body + padding (length body)"
    using assms(1) by (simp add: length_chunk_bytes t tag_RIFF_def tag_WAVE_def)
  show ?thesis
    unfolding parse_wav_scanned [OF rd len tags scan] ofs
    by (simp add: profile_ok_def fail_def rd_take [OF assms(2)])
qed

text \<open>Every list of bytes is a sequence of chunks followed by an ending that holds no
  whole chunk, so the layout loses no stream.\<close>

lemma le32_unat:
  "le32 (unat (w::ulong)) = [ucast w, ucast (drop_bit 8 w), ucast (drop_bit 16 w),
                             ucast (drop_bit 24 w)]"
proof -
  have "word_of_nat (drop_bit k (unat w)) = (ucast (drop_bit k w) :: byte)" for k
    by (simp add: unat_drop_bit_eq [symmetric])
  from this [of 8] this [of 16] this [of 24] show ?thesis
    by (simp add: le32_def)
qed

lemma le32_rd_le_u32:
  assumes "4 \<le> length b"
  shows "le32 (unat (rd_le_u32 b)) = take 4 b"
proof -
  obtain b0 b1 b2 b3 rest where b: "b = b0 # b1 # b2 # b3 # rest"
    using assms by (cases b; cases "tl b"; cases "tl (tl b)"; cases "tl (tl (tl b))") auto
  let ?w = "ucast b0 OR push_bit 8 (ucast b1) OR push_bit 16 (ucast b2) OR
            push_bit 24 (ucast b3) :: ulong"
  have 0: "ucast ?w = b0"
    by (rule bit_eqI) (auto simp: bit_simps)
  have 1: "ucast (drop_bit 8 ?w) = b1"
    by (rule bit_eqI) (auto simp: bit_simps dest: bit_imp_le_length)
  have 2: "ucast (drop_bit 16 ?w) = b2"
    by (rule bit_eqI) (auto simp: bit_simps dest: bit_imp_le_length)
  have 3: "ucast (drop_bit 24 ?w) = b3"
    by (rule bit_eqI) (auto simp: bit_simps dest: bit_imp_le_length)
  have "rd_le_u32 b = ?w"
    by (simp add: rd_le_u32_def b)
  then show ?thesis
    by (simp only: le32_unat 0 1 2 3) (simp add: b)
qed


lemma stream_is_chunks:
  "\<exists>cs ending. bytes = concat (map chunk_image cs) @ ending \<and>
     (\<forall>c\<in>set cs. length (c_tag c) = 4 \<and> length (c_body c) < 4294967296 \<and>
                   length (c_pad c) = padding (length (c_body c))) \<and>
     (length ending < 8 \<or> length ending < 8 + declared ending + padding (declared ending))"
proof (induction "length bytes" arbitrary: bytes rule: less_induct)
  case less
  show ?case
  proof (cases "length bytes < 8 \<or>
                length bytes < 8 + declared bytes + padding (declared bytes)")
    case True
    then show ?thesis
      by (intro exI [of _ "[]"] exI [of _ bytes]) simp
  next
    case False
    define n where "n = declared bytes"
    define c where "c = \<lparr>c_tag = take 4 bytes, c_body = take n (drop 8 bytes),
                          c_pad = take (padding n) (drop (8 + n) bytes)\<rparr>"
    define rest where "rest = drop (8 + n + padding n) bytes"
    have len: "8 + n + padding n \<le> length bytes"
      using False by (simp add: n_def)
    have n32: "n < 4294967296"
      unfolding n_def declared_def by (rule rd_le_u32_less)
    have "le32 n = take 4 (drop 4 bytes)"
      unfolding n_def declared_def using len by (intro le32_rd_le_u32) simp
    then have "chunk_image c =
        take 4 bytes @ take 4 (drop 4 bytes) @ take n (drop 8 bytes) @
        take (padding n) (drop (8 + n) bytes)"
      using len by (simp add: chunk_image_def c_def)
    also have "\<dots> = take (4 + (4 + (n + padding n))) bytes"
      by (simp only: take_add drop_drop) (simp add: add.commute)
    finally have img: "chunk_image c = take (8 + n + padding n) bytes"
      by (simp add: add.assoc)
    have split: "bytes = chunk_image c @ rest"
      by (simp only: img rest_def append_take_drop_id)
    have wf: "length (c_tag c) = 4 \<and> length (c_body c) < 4294967296 \<and>
              length (c_pad c) = padding (length (c_body c))"
      using len n32 by (simp add: c_def)
    have "length rest < length bytes"
      using len by (simp add: rest_def)
    from less [OF this] obtain cs ending where
      r: "rest = concat (map chunk_image cs) @ ending"
      and w: "\<forall>c\<in>set cs. length (c_tag c) = 4 \<and> length (c_body c) < 4294967296 \<and>
                            length (c_pad c) = padding (length (c_body c))"
      and e: "length ending < 8 \<or>
              length ending < 8 + declared ending + padding (declared ending)"
      by blast
    have "bytes = concat (map chunk_image (c # cs)) @ ending"
      using split by (simp add: r)
    moreover have "\<forall>c\<in>set (c # cs). length (c_tag c) = 4 \<and> length (c_body c) < 4294967296 \<and>
                            length (c_pad c) = padding (length (c_body c))"
      using wf w by simp
    ultimately show ?thesis
      using e by blast
  qed
qed

text \<open>
  Claim C10, as amended. Take a stream of chunks \<open>cs\<close>, each with its body and the place
  of its pad byte, in which every format chunk declares fewer than 16 bytes, followed by
  an \<open>ending\<close> that holds no whole chunk: fewer than the eight bytes of a header, or a
  header with fewer bytes behind it than it declares. Where the ending is not a format
  chunk of 16 bytes or more and not a format chunk with a part of its body missing, the
  chunk loop started without a format on record runs to the end of the stream and has
  no format on record there, and \<open>parse_wav\<close> on a RIFF/WAVE file of that shape fails as
  \<open>MissingChunk\<close>. A format chunk that declares fewer than 16 bytes and whose body is
  in the stream is read and skipped, with or without a pad byte behind it, and leaves the
  variables of the parser as they were: it does not count as the format chunk. Where the
  stream ends inside the body of such a chunk, the parser returns from its check of the
  format body instead.
\<close>

theorem short_format_chunk:
  assumes "\<forall>c\<in>set cs. length (c_tag c) = 4 \<and> length (c_body c) < 4294967296 \<and>
                      length (c_pad c) = padding (length (c_body c))"
    and "\<forall>c\<in>set cs. c_tag c = tag_fmt \<longrightarrow> length (c_body c) < 16"
    and "length ending < 8 \<or> length ending < 8 + declared ending + padding (declared ending)"
    and "8 \<le> length ending \<and> take 4 ending = tag_fmt \<longrightarrow>
           declared ending < 16 \<and> 8 + declared ending \<le> length ending"
  shows "(length size4 = 4 \<and>
          int (length (tag_RIFF @ size4 @ tag_WAVE @ concat (map chunk_image cs) @ ending)) +
            4294967296 \<le> LONG_MAX \<longrightarrow>
            parse_wav \<lparr>content = tag_RIFF @ size4 @ tag_WAVE @ concat (map chunk_image cs) @
                         ending, pos = 0\<rparr> name =
              Inl (MissingChunk, name @ '': missing fmt or data chunk'' @ [newline])) \<and>
         (drop (pos f) (content f) = concat (map chunk_image cs) @ ending \<and>
          int (pos f) + int (length (concat (map chunk_image cs) @ ending)) + 4294967296
            \<le> LONG_MAX \<and> \<not> got_fmt st \<longrightarrow>
            (\<exists>st'. scan_chunks f st = Inr (EndOfStream, st') \<and> \<not> got_fmt st')) \<and>
         (drop (pos g) (content g) = tag_fmt @ le32 n @ rest \<and> n < 16 \<and> n \<le> length rest \<and>
          int (pos g) + 8 + int n + int (padding n) \<le> LONG_MAX \<longrightarrow>
            chunk_step g st = Cont (g\<lparr>pos := pos g + 8 + n + padding n\<rparr>) st) \<and>
         (drop (pos h) (content h) = concat (map chunk_image cs) @ tag_fmt @ le32 m @ part \<and>
          m < 16 \<and> length part < m \<and>
          int (pos h) + int (length (concat (map chunk_image cs))) \<le> LONG_MAX \<and>
          \<not> got_fmt st \<longrightarrow>
            scan_chunks h st = Inl TruncatedFmtBody)"
proof (intro conjI impI)
  let ?bytes = "tag_RIFF @ size4 @ tag_WAVE @ concat (map chunk_image cs) @ ending"
  let ?f = "\<lparr>content = ?bytes, pos = 0\<rparr>"
  let ?hdr = "tag_RIFF @ size4 @ tag_WAVE"
  let ?f1 = "?f\<lparr>pos := pos ?f + length ?hdr\<rparr>"
  assume a: "length size4 = 4 \<and> int (length ?bytes) + 4294967296 \<le> LONG_MAX"
  have len: "length ?hdr = 12"
    using a by (simp add: tag_RIFF_def tag_WAVE_def)
  have split: "drop (pos ?f) (content ?f) = ?hdr @ (concat (map chunk_image cs) @ ending)"
    by simp
  have rd: "fread 12 ?f = (?hdr, ?f1)"
    using fread_exact(1) [OF split] by (simp only: len)
  have after: "drop (pos ?f1) (content ?f1) = concat (map chunk_image cs) @ ending"
    using fread_exact(2) [OF split] by simp
  have tags: "take 4 ?hdr = tag_RIFF" "take 4 (drop 8 ?hdr) = tag_WAVE"
    using a by (simp_all add: tag_RIFF_def tag_WAVE_def)
  have bound: "int (pos ?f1) + int (length (concat (map chunk_image cs) @ ending)) + 4294967296
                 \<le> LONG_MAX"
    using a by simp
  have "\<not> got_fmt scan0"
    by (simp add: scan0_def)
  with after assms bound obtain st' where scan: "scan_chunks ?f1 scan0 = Inr (EndOfStream, st')"
    and nofmt: "\<not> got_fmt st'"
    using scan_no_format [of ?f1 cs ending scan0] by blast
  show "parse_wav ?f name = Inl (MissingChunk, name @ '': missing fmt or data chunk'' @ [newline])"
    using nofmt by (simp add: parse_wav_scanned [OF rd len tags scan] fail_def)
next
  assume "drop (pos f) (content f) = concat (map chunk_image cs) @ ending \<and>
          int (pos f) + int (length (concat (map chunk_image cs) @ ending)) + 4294967296
            \<le> LONG_MAX \<and> \<not> got_fmt st"
  then show "\<exists>st'. scan_chunks f st = Inr (EndOfStream, st') \<and> \<not> got_fmt st'"
    by (elim conjE) (rule scan_no_format [OF _ assms])
next
  assume "drop (pos g) (content g) = tag_fmt @ le32 n @ rest \<and> n < 16 \<and> n \<le> length rest \<and>
          int (pos g) + 8 + int n + int (padding n) \<le> LONG_MAX"
  then show "chunk_step g st = Cont (g\<lparr>pos := pos g + 8 + n + padding n\<rparr>) st"
    by (elim conjE) (rule short_fmt_skipped)
next
  assume "drop (pos h) (content h) = concat (map chunk_image cs) @ tag_fmt @ le32 m @ part \<and>
          m < 16 \<and> length part < m \<and>
          int (pos h) + int (length (concat (map chunk_image cs))) \<le> LONG_MAX \<and>
          \<not> got_fmt st"
  then show "scan_chunks h st = Inl TruncatedFmtBody"
    by (elim conjE) (rule scan_cut_format [OF _ assms(1,2)])
qed


theorem short_format_chunk_witness:
  "parse_wav \<lparr>content = tag_RIFF @ [0x2A, 0, 0, 0] @ tag_WAVE @
       concat (map chunk_image
         [\<lparr>c_tag = tag_fmt, c_body = [1, 0, 2], c_pad = [0xFF]\<rparr>,
          \<lparr>c_tag = tag_data, c_body = [1, 2, 3, 4], c_pad = []\<rparr>]) @
       [0x4C, 0x49, 0x53, 0x54, 10, 0, 0, 0, 1, 2],
       pos = 0\<rparr> ''a.wav'' =
     Inl (MissingChunk, ''a.wav: missing fmt or data chunk'' @ [newline]) \<and>
   (\<exists>st'. scan_chunks \<lparr>content =
       concat (map chunk_image
         [\<lparr>c_tag = tag_fmt, c_body = [1, 0, 2], c_pad = [0xFF]\<rparr>,
          \<lparr>c_tag = tag_data, c_body = [1, 2, 3, 4], c_pad = []\<rparr>]) @
       [0x4C, 0x49, 0x53, 0x54, 10, 0, 0, 0, 1, 2],
       pos = 0\<rparr> scan0 = Inr (EndOfStream, st') \<and> \<not> got_fmt st') \<and>
   chunk_step \<lparr>content = tag_fmt @ le32 3 @ [1, 0, 2], pos = 0\<rparr> scan0 =
     Cont \<lparr>content = tag_fmt @ le32 3 @ [1, 0, 2], pos = 12\<rparr> scan0 \<and>
   scan_chunks \<lparr>content =
       concat (map chunk_image
         [\<lparr>c_tag = tag_fmt, c_body = [1, 0, 2], c_pad = [0xFF]\<rparr>,
          \<lparr>c_tag = tag_data, c_body = [1, 2, 3, 4], c_pad = []\<rparr>]) @
       tag_fmt @ le32 8 @ [1, 0, 2, 0],
       pos = 0\<rparr> scan0 = Inl TruncatedFmtBody"
  using short_format_chunk [where cs = "[\<lparr>c_tag = tag_fmt, c_body = [1, 0, 2], c_pad = [0xFF]\<rparr>,
          \<lparr>c_tag = tag_data, c_body = [1, 2, 3, 4], c_pad = []\<rparr>]"
      and ending = "[0x4C, 0x49, 0x53, 0x54, 10, 0, 0, 0, 1, 2]"
      and ?size4.0 = "[0x2A, 0, 0, 0]" and name = "''a.wav''"
      and f = "\<lparr>content =
       concat (map chunk_image
         [\<lparr>c_tag = tag_fmt, c_body = [1, 0, 2], c_pad = [0xFF]\<rparr>,
          \<lparr>c_tag = tag_data, c_body = [1, 2, 3, 4], c_pad = []\<rparr>]) @
       [0x4C, 0x49, 0x53, 0x54, 10, 0, 0, 0, 1, 2],
       pos = 0\<rparr>"
      and st = scan0
      and g = "\<lparr>content = tag_fmt @ le32 3 @ [1, 0, 2], pos = 0\<rparr>" and n = 3
      and rest = "[1, 0, 2]"
      and h = "\<lparr>content =
       concat (map chunk_image
         [\<lparr>c_tag = tag_fmt, c_body = [1, 0, 2], c_pad = [0xFF]\<rparr>,
          \<lparr>c_tag = tag_data, c_body = [1, 2, 3, 4], c_pad = []\<rparr>]) @
       tag_fmt @ le32 8 @ [1, 0, 2, 0],
       pos = 0\<rparr>" and m = 8 and part = "[1, 0, 2, 0]"]
  by (simp add: tag_RIFF_def tag_WAVE_def tag_fmt_def tag_data_def chunk_image_def le32_def
      LONG_MAX_def padding_def declared_def rd_le_u32_def scan0_def)

text \<open>The claim as stated fails where the stream ends inside the short format chunk: the
  parser then returns from its check of the format body, without a message.\<close>

theorem short_format_chunk_counterexample:
  "parse_wav \<lparr>content = wav_cut_fmt, pos = 0\<rparr> ''a.wav'' = Inl (TruncatedFmtBody, [])"
  by (simp add: parse_wav_def parser_eval fail_def wav_cut_fmt_def)

section \<open>The sector assembler is exact\<close>

subsection \<open>The copy loop and the padding loop\<close>

lemma fwrite_all:
  assumes "fwrite bs out = (n, out')"
  shows "written out' = written out @ bs"
proof -
  have "written (snd (fwrite bs out)) = written out @ bs"
    by (simp add: fwrite_def Let_def)
  then show ?thesis
    by (simp add: assms)
qed

lemma copy_loop_effect:
  "copy_loop remaining fin out = Inr out' \<Longrightarrow>
     written out' = written out @ take remaining (drop (pos fin) (content fin)) \<and>
     length (take remaining (drop (pos fin) (content fin))) = remaining"
proof (induction remaining fin out rule: copy_loop.induct)
  case (1 remaining fin out)
  show ?case
  proof (cases "0 < remaining")
    case False
    with "1.prems" show ?thesis
      by (subst (asm) copy_loop.simps) simp
  next
    case True
    define chunk where "chunk = (if BUFSIZE < remaining then BUFSIZE else remaining)"
    obtain buf fin' where rd: "fread chunk fin = (buf, fin')" by (cases "fread chunk fin")
    obtain n out1 where wr: "fwrite buf out = (n, out1)" by (cases "fwrite buf out")
    have chunk: "0 < chunk" "chunk \<le> remaining"
      using True by (simp_all add: chunk_def BUFSIZE_def)
    from "1.prems" True rd wr have len: "length buf = chunk" and n: "n = chunk"
      and rec: "copy_loop (remaining - chunk) fin' out1 = Inr out'"
      by (subst (asm) copy_loop.simps; simp add: chunk_def [symmetric] Let_def split: if_splits)+
    have IH: "written out' = written out1 @ take (remaining - chunk) (drop (pos fin') (content fin')) \<and>
      length (take (remaining - chunk) (drop (pos fin') (content fin'))) = remaining - chunk"
      using "1.IH" [OF True chunk_def rd [symmetric] _ wr [symmetric] _ rec] len n by simp
    have f': "content fin' = content fin" "pos fin' = pos fin + chunk"
      using fread_fwd [OF rd] len by simp_all
    have buf: "buf = take chunk (drop (pos fin) (content fin))"
      using rd by (rule fread_bytes)
    have w: "written out1 = written out @ buf"
      using wr by (rule fwrite_all)
    have tk: "take remaining (drop (pos fin) (content fin)) =
            buf @ take (remaining - chunk) (drop (pos fin') (content fin'))"
      unfolding buf f'
      using chunk(2) by (metis add.commute drop_drop le_add_diff_inverse take_add)
    have "written out' = written out @ take remaining (drop (pos fin) (content fin))"
      using IH w by (simp add: tk)
    moreover have "length (take remaining (drop (pos fin) (content fin))) = remaining"
      using IH len chunk(2) by (simp only: tk length_append)
    ultimately show ?thesis by simp
  qed
qed

lemma pad_loop_effect:
  "pad_loop pad_bytes out = Inr out' \<Longrightarrow> written out' = written out @ replicate pad_bytes 0"
proof (induction pad_bytes out rule: pad_loop.induct)
  case (1 pad_bytes out)
  show ?case
  proof (cases "0 < pad_bytes")
    case False
    with "1.prems" show ?thesis
      by (subst (asm) pad_loop.simps) simp
  next
    case True
    define chunk2 where "chunk2 = (if BUFSIZE < pad_bytes then BUFSIZE else pad_bytes)"
    let ?buf = "take chunk2 (replicate BUFSIZE (0::byte))"
    obtain n out1 where wr: "fwrite ?buf out = (n, out1)" by (cases "fwrite ?buf out")
    have chunk: "0 < chunk2" "chunk2 \<le> pad_bytes" "chunk2 \<le> BUFSIZE"
      using True by (simp_all add: chunk2_def BUFSIZE_def)
    have buf: "?buf = replicate chunk2 0"
      using chunk(3) by (simp add: min_def)
    from "1.prems" True wr have n: "n = chunk2"
      and rec: "pad_loop (pad_bytes - chunk2) out1 = Inr out'"
      by (subst (asm) pad_loop.simps; simp add: chunk2_def [symmetric] Let_def split: if_splits)+
    have IH: "written out' = written out1 @ replicate (pad_bytes - chunk2) 0"
      using "1.IH" [OF True chunk2_def wr [symmetric] _ rec] n by simp
    have w: "written out1 = written out @ replicate chunk2 0"
      using fwrite_all [OF wr] buf by simp
    have "replicate pad_bytes (0::byte) = replicate chunk2 0 @ replicate (pad_bytes - chunk2) 0"
      using chunk(2) by (simp flip: replicate_add)
    then show ?thesis
      using IH w by simp
  qed
qed

subsection \<open>What \<open>parse_wav\<close> hands to the assembler\<close>

lemma sint_below_half:
  assumes "unat (w::ulong) < 9223372036854775808" shows "sint w = int (unat w)"
proof -
  have eq: "uint w = int (unat w)" by (rule uint_nat)
  have "uint w < 9223372036854775808" using assms eq by linarith
  moreover have "(2::int) ^ 63 = 9223372036854775808" by simp
  ultimately have "uint w < 2 ^ 63" by linarith
  moreover have "- (2 ^ 63) \<le> uint w"
    by (rule order_trans [of _ 0]) simp_all
  ultimately have "signed_take_bit 63 (uint w) = uint w"
    by (rule signed_take_bit_int_eq_self [rotated])
  then have "sint w = uint w" by (simp add: sint_uint)
  then show ?thesis by (simp only: eq)
qed

lemma unat_here:
  assumes "0 \<le> here" and "here \<le> LONG_MAX"
  shows "unat (word_of_int here :: ulong) = nat here"
proof -
  have "nat here < 18446744073709551616"
    using assms unfolding LONG_MAX_def by linarith
  then have "nat here mod 2 ^ 64 = nat here"
    by simp
  moreover have "word_of_int here = (word_of_nat (nat here) :: ulong)"
    using assms(1) by (rule word_of_int_nat)
  moreover have "unat (word_of_nat (nat here) :: ulong) = nat here mod 2 ^ 64"
    by (simp only: unat_of_nat) simp
  ultimately show ?thesis
    by (simp only:)
qed

lemma located_scan0: "located scan0"
  by (simp add: located_def scan0_def)

lemma fmt_chunk_located: "fmt_chunk csize f st = Cont f' st' \<Longrightarrow> located st \<Longrightarrow> located st'"
  by (auto simp: fmt_chunk_def Let_def located_def split: prod.splits if_splits option.splits)

lemma other_chunk_located: "other_chunk csize f st = Cont f' st' \<Longrightarrow> located st \<Longrightarrow> located st'"
  by (auto simp: other_chunk_def split: option.splits)

lemma data_chunk_located:
  assumes "data_chunk csize f st = Cont f' st'" and "unat csize < 4294967296"
  shows "located st'"
proof -
  have here: "0 \<le> ftell f" "ftell f \<le> LONG_MAX"
    and st': "st' = st\<lparr>data_ofs := word_of_int (ftell f), data_size := csize, got_data := True\<rparr>"
    using assms(1)
    by (auto simp: data_chunk_def Let_def ftell_def split: if_splits option.splits)
  have "unat (word_of_int (ftell f) :: ulong) = nat (ftell f)"
    using here by (rule unat_here)
  moreover have "nat (ftell f) < 9223372036854775808"
    using here unfolding LONG_MAX_def by linarith
  ultimately show ?thesis
    using assms(2) by (simp add: located_def st')
qed

lemma chunk_step_located:
  assumes "chunk_step f st = Cont f' st'" and "located st"
  shows "located st'"
proof -
  obtain chdr f1 where r: "fread 8 f = (chdr, f1)" by (cases "fread 8 f")
  let ?csize = "rd_le_u32 (drop 4 chdr)"
  from assms(1) r have
    "fmt_chunk ?csize f1 st = Cont f' st' \<or> data_chunk ?csize f1 st = Cont f' st' \<or>
     other_chunk ?csize f1 st = Cont f' st'"
    by (auto simp: chunk_step_def Let_def split: if_splits)
  then show ?thesis
    using assms(2) rd_le_u32_less [of "drop 4 chdr"]
    by (auto dest: fmt_chunk_located data_chunk_located other_chunk_located)
qed

lemma scan_chunks_located:
  "scan_chunks f st = Inr (ex, st') \<Longrightarrow> located st \<Longrightarrow> located st'"
proof (induction f st rule: scan_chunks.induct)
  case (1 f st)
  from "1.prems" show ?case
    by (subst (asm) scan_chunks.simps)
      (auto split: step.splits if_splits dest: "1.IH" chunk_step_located)
qed

lemma parse_wav_located:
  assumes "parse_wav f name = Inr (d_ofs, d_size)"
  shows "unat d_size < 4294967296 \<and> unat d_ofs < 9223372036854775808"
proof -
  obtain hdr12 f1 where r: "fread 12 f = (hdr12, f1)" by (cases "fread 12 f")
  from assms r obtain ex st where "scan_chunks f1 scan0 = Inr (ex, st)"
    and "d_ofs = data_ofs st" and "d_size = data_size st"
    by (auto simp: parse_wav_def fail_def split: if_splits sum.splits)
  then show ?thesis
    using scan_chunks_located [of f1 scan0 ex st] located_scan0 by (simp add: located_def)
qed

subsection \<open>Padding on 64-bit words\<close>

lemma unat_SECTOR: "unat SECTOR = 2352"
  by (simp add: SECTOR_def)

lemma unat_pad_of: "unat (pad_of d) = (2352 - unat d mod 2352) mod 2352"
proof -
  have r: "unat (d mod SECTOR) = unat d mod 2352"
    by (simp add: unat_mod unat_SECTOR)
  have "unat d mod 2352 < 2352" by simp
  then have "d mod SECTOR \<le> SECTOR"
    by (simp add: word_le_nat_alt r unat_SECTOR)
  then have "unat (SECTOR - d mod SECTOR) = 2352 - unat d mod 2352"
    by (simp add: unat_sub r unat_SECTOR)
  then show ?thesis
    by (simp add: pad_of_def unat_mod unat_SECTOR)
qed

lemma pad_nat:
  fixes L :: nat
  shows "(2352 - L mod 2352) mod 2352 < 2352"
    and "(L + (2352 - L mod 2352) mod 2352) mod 2352 = 0"
proof -
  show "(2352 - L mod 2352) mod 2352 < 2352" by simp
  show "(L + (2352 - L mod 2352) mod 2352) mod 2352 = 0"
  proof (cases "L mod 2352 = 0")
    case True
    then show ?thesis by simp
  next
    case False
    then have p: "(2352 - L mod 2352) mod 2352 = 2352 - L mod 2352"
      by simp
    have "(L + (2352 - L mod 2352)) mod 2352 = (L mod 2352 + (2352 - L mod 2352)) mod 2352"
      by (simp only: mod_add_left_eq)
    also have "L mod 2352 + (2352 - L mod 2352) = 2352"
      by simp
    finally show ?thesis by (simp add: p)
  qed
qed

lemma unat_padded:
  assumes "unat d < 4294967296"
  shows "unat (d + pad_of d) = unat d + (2352 - unat d mod 2352) mod 2352"
proof -
  have "unat (pad_of d) < 2352"
    by (simp add: unat_pad_of)
  then have "unat d + unat (pad_of d) < 2 ^ LENGTH(64)"
    using assms by simp
  then have "unat (d + pad_of d) = unat d + unat (pad_of d)"
    by (rule unat_add_lem [THEN iffD1])
  then show ?thesis by (simp only: unat_pad_of)
qed

lemma unat_padded_sectors:
  assumes "unat d < 4294967296"
  shows "unat ((d + pad_of d) div SECTOR) = (unat d + (2352 - unat d mod 2352) mod 2352) div 2352"
  by (simp only: unat_div unat_SECTOR unat_padded [OF assms])

lemma padded_sectors_bound:
  assumes "(L::nat) < 4294967296"
  shows "(L + (2352 - L mod 2352) mod 2352) div 2352 < 2097152"
proof -
  have "(2352 - L mod 2352) mod 2352 < 2352" by simp
  then have "L + (2352 - L mod 2352) mod 2352 < 2097152 * 2352"
    using assms by linarith
  then show ?thesis
    by (rule less_mult_imp_div_less)
qed

subsection \<open>One track, and the loop over all tracks\<close>

lemma fseek_set_ofs:
  assumes "unat (d_ofs::ulong) < 9223372036854775808"
  shows "fseek_set (sint d_ofs) fin = Some (fin\<lparr>pos := unat d_ofs\<rparr>)"
proof -
  have s: "sint d_ofs = int (unat d_ofs)"
    using assms by (rule sint_below_half)
  have "int (unat d_ofs) \<le> LONG_MAX"
    using assms unfolding LONG_MAX_def by linarith
  then show ?thesis
    unfolding fseek_set_def s by simp
qed

lemma track_effect:
  assumes "track w wav a = Inr a'"
  shows "\<exists>bytes d_ofs d_size.
           files w wav = Some bytes \<and>
           parse_wav \<lparr>content = bytes, pos = 0\<rparr> wav = Inr (d_ofs, d_size) \<and>
           source_payload w wav = take (unat d_size) (drop (unat d_ofs) bytes) \<and>
           length (source_payload w wav) = unat d_size \<and>
           unat d_size < 4294967296 \<and>
           index_times a' = index_times a @ [total_sectors_before a] \<and>
           total_sectors_before a' = total_sectors_before a + (d_size + pad_of d_size) div SECTOR \<and>
           written (fbin a') =
             written (fbin a) @ source_payload w wav @ replicate (unat (pad_of d_size)) 0"
proof -
  from assms obtain bytes where f: "files w wav = Some bytes"
    by (auto simp: track_def split: option.splits)
  let ?fin = "\<lparr>content = bytes, pos = 0\<rparr>"
  from assms f obtain d_ofs d_size where p: "parse_wav ?fin wav = Inr (d_ofs, d_size)"
    by (auto simp: track_def Let_def split: sum.splits)
  have loc: "unat d_size < 4294967296" "unat d_ofs < 9223372036854775808"
    using parse_wav_located [OF p] by simp_all
  have sk: "fseek_set (sint d_ofs) ?fin = Some (?fin\<lparr>pos := unat d_ofs\<rparr>)"
    using loc(2) by (rule fseek_set_ofs)
  let ?fin1 = "?fin\<lparr>pos := unat d_ofs\<rparr>"
  from assms f p sk obtain out1 where c: "copy_loop (unat d_size) ?fin1 (fbin a) = Inr out1"
    by (auto simp: track_def Let_def split: sum.splits)
  from assms f p sk c obtain out2 where pd: "pad_loop (unat (pad_of d_size)) out1 = Inr out2"
    by (auto simp: track_def Let_def split: sum.splits)
  from assms f p sk c pd have a': "a' = \<lparr>index_times = index_times a @ [total_sectors_before a],
      total_sectors_before = total_sectors_before a + (d_size + pad_of d_size) div SECTOR,
      fbin = out2\<rparr>"
    by (simp add: track_def Let_def)
  have sp: "source_payload w wav = take (unat d_size) (drop (unat d_ofs) bytes)"
    by (simp add: source_payload_def f p)
  have ce: "written out1 = written (fbin a) @ source_payload w wav"
    "length (source_payload w wav) = unat d_size"
    using copy_loop_effect [OF c] by (simp_all add: sp)
  have pe: "written out2 = written out1 @ replicate (unat (pad_of d_size)) 0"
    using pad_loop_effect [OF pd] by simp
  show ?thesis
    using f p sp ce pe loc(1) by (simp add: a')
qed

lemma track_step:
  assumes "track w wav a = Inr a'"
    and "unat (total_sectors_before a) + 2097152 \<le> 18446744073709551616"
  shows "index_times a' = index_times a @ [total_sectors_before a]"
    and "unat (total_sectors_before a') =
           unat (total_sectors_before a) + padded_sector_count (length (source_payload w wav))"
    and "written (fbin a') =
           written (fbin a) @ source_payload w wav @
           replicate ((2352 - length (source_payload w wav) mod 2352) mod 2352) 0"
    and "padded_sector_count (length (source_payload w wav)) < 2097152"
proof -
  from track_effect [OF assms(1)] obtain d_size where
    len: "length (source_payload w wav) = unat d_size" and
    small: "unat d_size < 4294967296" and
    idx: "index_times a' = index_times a @ [total_sectors_before a]" and
    tot: "total_sectors_before a' = total_sectors_before a + (d_size + pad_of d_size) div SECTOR" and
    wr: "written (fbin a') =
           written (fbin a) @ source_payload w wav @ replicate (unat (pad_of d_size)) 0"
    by blast
  let ?s = "(d_size + pad_of d_size) div SECTOR"
  have s: "unat ?s = padded_sector_count (length (source_payload w wav))"
    by (simp only: unat_padded_sectors [OF small] padded_sector_count_def len)
  show b: "padded_sector_count (length (source_payload w wav)) < 2097152"
    unfolding padded_sector_count_def len using small by (rule padded_sectors_bound)
  show "index_times a' = index_times a @ [total_sectors_before a]"
    by (fact idx)
  have "unat (total_sectors_before a) + unat ?s < 2 ^ LENGTH(64)"
    using assms(2) b by (simp add: s)
  then have "unat (total_sectors_before a + ?s) = unat (total_sectors_before a) + unat ?s"
    by (rule unat_add_lem [THEN iffD1])
  then show "unat (total_sectors_before a') =
           unat (total_sectors_before a) + padded_sector_count (length (source_payload w wav))"
    by (simp only: tot s)
  show "written (fbin a') =
           written (fbin a) @ source_payload w wav @
           replicate ((2352 - length (source_payload w wav) mod 2352) mod 2352) 0"
    by (simp only: wr unat_pad_of len)
qed

lemma tracks_effect:
  assumes "tracks w paths a = Inr a'"
    and "unat (total_sectors_before a) + length paths * 2097152 \<le> 18446744073709551616"
  shows "map unat (index_times a') =
           map unat (index_times a) @
           map (\<lambda>i. unat (total_sectors_before a) +
                  sum_list (map (\<lambda>p. padded_sector_count (length (source_payload w p)))
                     (take i paths))) [0..<length paths] \<and>
         unat (total_sectors_before a') =
           unat (total_sectors_before a) +
           sum_list (map (\<lambda>p. padded_sector_count (length (source_payload w p))) paths) \<and>
         written (fbin a') = written (fbin a) @ concat (map (block w) paths)"
  using assms
proof (induction paths arbitrary: a)
  case Nil
  then show ?case by simp
next
  case (Cons p ps)
  let ?sec = "\<lambda>p. padded_sector_count (length (source_payload w p))"
  from Cons.prems(1) obtain a1 where t: "track w p a = Inr a1" and r: "tracks w ps a1 = Inr a'"
    by (auto split: sum.splits)
  have room: "unat (total_sectors_before a) + 2097152 \<le> 18446744073709551616"
    using Cons.prems(2) by simp
  note st = track_step [OF t room]
  have room1: "unat (total_sectors_before a1) + length ps * 2097152 \<le> 18446744073709551616"
    using Cons.prems(2) st(2,4) by simp
  note IH = Cons.IH [OF r room1]
  have upt: "[0..<length (p # ps)] = 0 # map Suc [0..<length ps]"
    by (simp add: upt_conv_Cons map_Suc_upt del: upt_Suc)
  have "map unat (index_times a') =
          map unat (index_times a) @
          map (\<lambda>i. unat (total_sectors_before a) + sum_list (map ?sec (take i (p # ps))))
            [0..<length (p # ps)]"
    unfolding upt using IH st(1,2) by (simp add: comp_def add.assoc)
  moreover have "unat (total_sectors_before a') =
          unat (total_sectors_before a) + sum_list (map ?sec (p # ps))"
    using IH st(2) by simp
  moreover have "written (fbin a1) = written (fbin a) @ block w p"
    using st(3) by (simp only: block_def)
  then have "written (fbin a') = written (fbin a) @ concat (map (block w) (p # ps))"
    using IH by simp
  ultimately show ?case by blast
qed

subsection \<open>The example run\<close>

lemma parse_wav_cd: "parse_wav \<lparr>content = wav_cd, pos = 0\<rparr> name = Inr (44, 4)"
  by (simp add: parse_wav_def parser_eval profile_ok_def wav_cd_def)

lemma track_wav_cd:
  assumes "files w wav = Some wav_cd"
    and "fwrite [1, 2, 3, 4] (fbin a) = (4, out1)"
    and "fwrite (replicate 2348 0) out1 = (2348, out2)"
  shows "track w wav a =
     Inr \<lparr>index_times = index_times a @ [total_sectors_before a],
          total_sectors_before = total_sectors_before a + 1, fbin = out2\<rparr>"
proof -
  have p: "pad_of 4 = 2348" "2352 div SECTOR = 1"
    by (simp_all add: pad_of_def SECTOR_def)
  have c: "copy_loop 4 \<lparr>content = wav_cd, pos = 44\<rparr> (fbin a) = Inr out1"
    by (simp add: copy_loop.simps BUFSIZE_def fread_def wav_cd_def assms(2))
  have d: "pad_loop 2348 out1 = Inr out2"
    by (simp add: pad_loop.simps BUFSIZE_def assms(3))
  show ?thesis
    by (simp add: track_def assms(1) parse_wav_cd fseek_set_def LONG_MAX_def c p d)
qed

lemma tracks_cd:
  "tracks world_cd [''a.wav'', ''a.wav''] (asm0 world_cd) = Inr asm_cd"
proof -
  let ?b = "[1, 2, 3, 4] @ replicate 2348 (0::byte)"
  let ?o1 = "\<lparr>written = [1, 2, 3, 4], on_disk = 0, room = 10000, policy = full_buffer 4096\<rparr>"
  let ?o2 = "\<lparr>written = ?b, on_disk = 0, room = 10000, policy = full_buffer 4096\<rparr>"
  let ?o3 = "\<lparr>written = ?b @ [1, 2, 3, 4], on_disk = 0, room = 10000,
              policy = full_buffer 4096\<rparr>"
  let ?o4 = "\<lparr>written = ?b @ ?b, on_disk = 4704, room = 5296, policy = full_buffer 4096\<rparr>"
  let ?a1 = "\<lparr>index_times = [0], total_sectors_before = 1, fbin = ?o2\<rparr>"
  have f: "files world_cd ''a.wav'' = Some wav_cd"
    by (simp add: world_cd_def)
  have 1: "fwrite [1, 2, 3, 4] (fbin (asm0 world_cd)) = (4, ?o1)"
    by (simp add: fwrite_def asm0_def world_cd_def full_buffer_def)
  have 2: "fwrite (replicate 2348 0) ?o1 = (2348, ?o2)"
    by (simp add: fwrite_def full_buffer_def)
  have 3: "fwrite [1, 2, 3, 4] (fbin ?a1) = (4, ?o3)"
    by (simp add: fwrite_def full_buffer_def)
  have 4: "fwrite (replicate 2348 0) ?o3 = (2348, ?o4)"
    by (simp add: fwrite_def full_buffer_def)
  have t1: "track world_cd ''a.wav'' (asm0 world_cd) = Inr ?a1"
    using track_wav_cd [OF f 1 2] by (simp add: asm0_def)
  have t2: "track world_cd ''a.wav'' ?a1 = Inr asm_cd"
    using track_wav_cd [OF f 3 4] by (simp add: asm_cd_def)
  show ?thesis
    by (simp only: tracks.simps t1 t2 sum.case)
qed

lemma payload_cd: "source_payload world_cd ''a.wav'' = [1, 2, 3, 4]"
  by (simp add: source_payload_def world_cd_def parse_wav_cd) (simp add: wav_cd_def)

lemma asm0_fields:
  "index_times (asm0 w) = []" "total_sectors_before (asm0 w) = 0" "written (fbin (asm0 w)) = []"
  by (simp_all add: asm0_def)

lemma tracks_from_start:
  assumes "tracks w paths (asm0 w) = Inr a" and "length paths < 2147483648"
  shows "map unat (index_times a) =
           map (\<lambda>i. sum_list (map (\<lambda>p. padded_sector_count (length (source_payload w p)))
                     (take i paths))) [0..<length paths]"
    and "unat (total_sectors_before a) =
           sum_list (map (\<lambda>p. padded_sector_count (length (source_payload w p))) paths)"
    and "written (fbin a) = concat (map (block w) paths)"
proof -
  have "length paths * 2097152 \<le> 18446744073709551616"
    using assms(2) by linarith
  then have "unat (total_sectors_before (asm0 w)) + length paths * 2097152 \<le> 18446744073709551616"
    by (simp add: asm0_fields)
  from tracks_effect [OF assms(1) this]
  show "map unat (index_times a) =
           map (\<lambda>i. sum_list (map (\<lambda>p. padded_sector_count (length (source_payload w p)))
                     (take i paths))) [0..<length paths]"
    and "unat (total_sectors_before a) =
           sum_list (map (\<lambda>p. padded_sector_count (length (source_payload w p))) paths)"
    and "written (fbin a) = concat (map (block w) paths)"
    by (simp_all add: asm0_fields)
qed

lemma sum_take_mono:
  fixes f :: "'a \<Rightarrow> nat"
  assumes "i \<le> j"
  shows "sum_list (map f (take i xs)) \<le> sum_list (map f (take j xs))"
proof -
  have "take j xs = take i xs @ take (j - i) (drop i xs)"
    using assms by (metis le_add_diff_inverse take_add)
  then show ?thesis by simp
qed

lemma index_times_nth:
  assumes "tracks w paths (asm0 w) = Inr a" and "length paths < 2147483648"
  shows "length (index_times a) = length paths"
    and "i < length paths \<Longrightarrow> unat (index_times a ! i) =
            sum_list (map (\<lambda>p. padded_sector_count (length (source_payload w p)))
              (take i paths))"
proof -
  let ?run = "\<lambda>i. sum_list (map (\<lambda>p. padded_sector_count (length (source_payload w p)))
                  (take i paths))"
  have idx: "map unat (index_times a) = map ?run [0..<length paths]"
    using assms by (rule tracks_from_start(1))
  show len: "length (index_times a) = length paths"
    using arg_cong [OF idx, of length] by simp
  show "unat (index_times a ! i) = ?run i" if "i < length paths"
    using arg_cong [OF idx, of "\<lambda>xs. xs ! i"] that len by simp
qed

text \<open>
  Claim C1. After a track loop that went through, over fewer than \<open>2 ^ 31\<close> inputs (\<open>argc\<close>
  is an \<open>int\<close>), there is one recorded start sector per track; the start sector of
  track \<open>i\<close> is the sum of the padded sector counts of the tracks before it; the first one
  is 0; and the start sectors never decrease.
\<close>

theorem start_sectors_are_running_totals:
  assumes "tracks w paths (asm0 w) = Inr a" and "length paths < 2147483648"
  shows "length (index_times a) = length paths \<and>
         (\<forall>i<length paths. unat (index_times a ! i) =
            sum_list (map (\<lambda>p. padded_sector_count (length (source_payload w p)))
              (take i paths))) \<and>
         (paths \<noteq> [] \<longrightarrow> index_times a ! 0 = 0) \<and>
         sorted (map unat (index_times a))"
proof -
  let ?sec = "\<lambda>p. padded_sector_count (length (source_payload w p))"
  let ?run = "\<lambda>i. sum_list (map ?sec (take i paths))"
  have idx: "map unat (index_times a) = map ?run [0..<length paths]"
    using assms by (rule tracks_from_start(1))
  have len: "length (index_times a) = length paths"
    using assms by (rule index_times_nth(1))
  have nth: "unat (index_times a ! i) = ?run i" if "i < length paths" for i
    using assms that by (rule index_times_nth(2))
  have first: "index_times a ! 0 = 0" if "paths \<noteq> []"
  proof -
    have "unat (index_times a ! 0) = 0"
      using nth [of 0] that by simp
    then show ?thesis by (simp add: unat_eq_0)
  qed
  have "sorted (map ?run [0..<length paths])"
    by (auto simp: sorted_iff_nth_mono intro: sum_take_mono)
  then have "sorted (map unat (index_times a))"
    by (simp only: idx)
  with len nth first show ?thesis by blast
qed


theorem start_sectors_are_running_totals_witness:
  "tracks world_cd [''a.wav'', ''a.wav''] (asm0 world_cd) = Inr asm_cd \<and>
   length [''a.wav'', ''a.wav''] < (2147483648::nat) \<and>
   length (index_times asm_cd) = 2 \<and>
   unat (index_times asm_cd ! 1) =
     padded_sector_count (length (source_payload world_cd ''a.wav'')) \<and>
   index_times asm_cd ! 0 = 0 \<and>
   sorted (map unat (index_times asm_cd))"
proof -
  have h: "length [''a.wav'', ''a.wav''] < (2147483648::nat)" by simp
  from start_sectors_are_running_totals [OF tracks_cd h]
  have "length (index_times asm_cd) = 2"
    and "\<forall>i<2. unat (index_times asm_cd ! i) =
           sum_list (map (\<lambda>p. padded_sector_count (length (source_payload world_cd p)))
             (take i [''a.wav'', ''a.wav'']))"
    and "index_times asm_cd ! 0 = 0"
    and "sorted (map unat (index_times asm_cd))"
    by simp_all
  moreover from this(2) have "unat (index_times asm_cd ! 1) =
     padded_sector_count (length (source_payload world_cd ''a.wav''))"
    by (rule allE [of _ 1]) simp
  ultimately show ?thesis
    using tracks_cd h by blast
qed

lemma length_block: "length (block w p) = padded_sector_count (length (source_payload w p)) * 2352"
proof -
  let ?L = "length (source_payload w p)"
  have "(?L + (2352 - ?L mod 2352) mod 2352) mod 2352 = 0"
    by (rule pad_nat(2))
  then have "(?L + (2352 - ?L mod 2352) mod 2352) div 2352 * 2352 = ?L + (2352 - ?L mod 2352) mod 2352"
    by (metis add.right_neutral div_mult_mod_eq)
  then show ?thesis
    by (simp add: block_def padded_sector_count_def)
qed

lemma length_blocks:
  "length (concat (map (block w) ps)) =
     sum_list (map (\<lambda>p. padded_sector_count (length (source_payload w p))) ps) * 2352"
  by (induction ps) (simp_all add: length_block add_mult_distrib)

lemma main_after_tracks:
  assumes "tracks w paths (asm0 w) = Inr a" and "paths \<noteq> []"
    and "bin_opens w" and "malloc_ok w"
  shows "disc_bin (main w argv0 paths) = Some (fclose (fbin a))"
    and "cue_opens w \<Longrightarrow>
           main w argv0 paths =
             \<lparr>status = 0, err = [], disc_bin = Some (fclose (fbin a)),
              disc_cue = Some (cue_sheet (index_times a))\<rparr>"
proof -
  have "\<not> 1 + int (length paths) < 2"
    using assms(2) by (cases paths) simp_all
  then show "disc_bin (main w argv0 paths) = Some (fclose (fbin a))"
    and "cue_opens w \<Longrightarrow>
           main w argv0 paths =
             \<lparr>status = 0, err = [], disc_bin = Some (fclose (fbin a)),
              disc_cue = Some (cue_sheet (index_times a))\<rparr>"
    using assms(1,3,4) by (simp_all add: main_def Let_def)
qed

text \<open>The bytes handed to the stream are whole sectors, as many as the sector counter
  says.\<close>

lemma stream_is_whole_sectors:
  assumes "tracks w paths (asm0 w) = Inr a" and "length paths < 2147483648"
  shows "length (written (fbin a)) = unat (total_sectors_before a) * 2352"
  by (simp only: tracks_from_start(2,3) [OF assms] length_blocks)

lemma tracks_each:
  "tracks w paths a = Inr a' \<Longrightarrow> p \<in> set paths \<Longrightarrow> \<exists>a1 a2. track w p a1 = Inr a2"
proof (induction paths arbitrary: a)
  case Nil
  then show ?case by simp
next
  case (Cons q qs)
  from Cons.prems(1) obtain a1 where t: "track w q a = Inr a1" and r: "tracks w qs a1 = Inr a'"
    by (auto split: sum.splits)
  show ?case
  proof (cases "p = q")
    case True
    with t show ?thesis by blast
  next
    case False
    with Cons.prems(2) have "p \<in> set qs" by simp
    with r show ?thesis by (rule Cons.IH)
  qed
qed

text \<open>The bytes handed to the stream from \<open>start_sector * 2352\<close> on are the payload of the
  track.\<close>

lemma stream_round_trip:
  assumes "tracks w paths (asm0 w) = Inr a" and "length paths < 2147483648"
    and "i < length paths"
  shows "take (length (source_payload w (paths ! i)))
           (drop (unat (index_times a ! i) * 2352) (written (fbin a))) =
           source_payload w (paths ! i) \<and>
         (\<exists>bytes d_ofs d_size.
            files w (paths ! i) = Some bytes \<and>
            parse_wav \<lparr>content = bytes, pos = 0\<rparr> (paths ! i) = Inr (d_ofs, d_size) \<and>
            source_payload w (paths ! i) = take (unat d_size) (drop (unat d_ofs) bytes) \<and>
            length (source_payload w (paths ! i)) = unat d_size)"
proof -
  let ?sec = "\<lambda>p. padded_sector_count (length (source_payload w p))"
  let ?p = "paths ! i"
  have start: "unat (index_times a ! i) = sum_list (map ?sec (take i paths))"
    using assms by (rule index_times_nth(2))
  have "paths = take i paths @ ?p # drop (Suc i) paths"
    using assms(3) by (rule id_take_nth_drop)
  then have "concat (map (block w) paths) =
               concat (map (block w) (take i paths)) @ block w ?p @
               concat (map (block w) (drop (Suc i) paths))"
    by (metis concat.simps(2) concat_append list.simps(9) map_append)
  moreover have "length (concat (map (block w) (take i paths))) = unat (index_times a ! i) * 2352"
    by (simp only: start length_blocks)
  ultimately have "drop (unat (index_times a ! i) * 2352) (written (fbin a)) =
      block w ?p @ concat (map (block w) (drop (Suc i) paths))"
    by (simp add: tracks_from_start(3) [OF assms(1,2)])
  then have 1: "take (length (source_payload w ?p))
           (drop (unat (index_times a ! i) * 2352) (written (fbin a))) = source_payload w ?p"
    by (simp add: block_def)
  have "?p \<in> set paths"
    using assms(3) by simp
  then obtain a1 a2 where "track w ?p a1 = Inr a2"
    using tracks_each [OF assms(1)] by blast
  from track_effect [OF this] have 2: "\<exists>bytes d_ofs d_size.
            files w ?p = Some bytes \<and>
            parse_wav \<lparr>content = bytes, pos = 0\<rparr> ?p = Inr (d_ofs, d_size) \<and>
            source_payload w ?p = take (unat d_size) (drop (unat d_ofs) bytes) \<and>
            length (source_payload w ?p) = unat d_size"
    by blast
  from 1 2 show ?thesis by blast
qed

text \<open>
  Claim C4. A track with a payload of \<open>L\<close> bytes appends the payload and then
  \<open>pad = (2352 - (L mod 2352)) mod 2352\<close> zero bytes; \<open>pad\<close> is below 2352 and \<open>L + pad\<close> is
  a multiple of 2352.
\<close>

theorem padding_law:
  assumes "track w wav a = Inr a'"
  shows "\<exists>pad. pad = (2352 - length (source_payload w wav) mod 2352) mod 2352 \<and>
           written (fbin a') = written (fbin a) @ source_payload w wav @ replicate pad 0 \<and>
           pad < 2352 \<and>
           (length (source_payload w wav) + pad) mod 2352 = 0"
proof -
  from track_effect [OF assms] obtain d_size where
    len: "length (source_payload w wav) = unat d_size" and
    wr: "written (fbin a') =
           written (fbin a) @ source_payload w wav @ replicate (unat (pad_of d_size)) 0"
    by blast
  have "written (fbin a') =
          written (fbin a) @ source_payload w wav @
          replicate ((2352 - length (source_payload w wav) mod 2352) mod 2352) 0"
    by (simp only: wr unat_pad_of len)
  with pad_nat [of "length (source_payload w wav)"] show ?thesis
    by (intro exI [of _ "(2352 - length (source_payload w wav) mod 2352) mod 2352"] conjI refl)
qed


theorem padding_law_witness:
  "track world_cd ''a.wav'' (asm0 world_cd) =
     Inr \<lparr>index_times = [0], total_sectors_before = 1,
          fbin = \<lparr>written = [1, 2, 3, 4] @ replicate 2348 0, on_disk = 0, room = 10000,
                  policy = full_buffer 4096\<rparr>\<rparr> \<and>
   (2352 - length (source_payload world_cd ''a.wav'') mod 2352) mod 2352 = 2348 \<and>
   (length (source_payload world_cd ''a.wav'') + 2348) mod 2352 = 0"
proof -
  let ?o1 = "\<lparr>written = [1, 2, 3, 4], on_disk = 0, room = 10000, policy = full_buffer 4096\<rparr>"
  let ?o2 = "\<lparr>written = [1, 2, 3, 4] @ replicate 2348 (0::byte), on_disk = 0, room = 10000,
              policy = full_buffer 4096\<rparr>"
  have f: "files world_cd ''a.wav'' = Some wav_cd"
    by (simp add: world_cd_def)
  have 1: "fwrite [1, 2, 3, 4] (fbin (asm0 world_cd)) = (4, ?o1)"
    by (simp add: fwrite_def asm0_def world_cd_def full_buffer_def)
  have 2: "fwrite (replicate 2348 0) ?o1 = (2348, ?o2)"
    by (simp add: fwrite_def full_buffer_def)
  have t: "track world_cd ''a.wav'' (asm0 world_cd) =
     Inr \<lparr>index_times = [0], total_sectors_before = 1, fbin = ?o2\<rparr>"
    using track_wav_cd [OF f 1 2] by (simp add: asm0_def)
  from padding_law [OF t] t show ?thesis
    by (simp add: payload_cd)
qed


section \<open>The image file\<close>

text \<open>What has been proved of the bytes handed to the stream holds of the file
  \<open>disc.bin\<close> where the file has room for them. Every call of \<open>fwrite\<close> keeps the books of
  the stream: the bytes on disk are among the bytes written, and what went to disk was
  taken from the room.\<close>

lemma fwrite_books:
  assumes "fwrite bs out = (n, out')" and "on_disk out \<le> length (written out)"
  shows "on_disk out' \<le> length (written out') \<and>
         on_disk out' + room out' = on_disk out + room out"
proof -
  define waiting where "waiting = length (written out) - on_disk out"
  define want where "want = min (policy out waiting (length bs)) (waiting + length bs)"
  define got where "got = min want (room out)"
  have "snd (fwrite bs out) =
          out\<lparr>written := written out @ bs, on_disk := on_disk out + got,
              room := room out - got\<rparr>"
    by (simp add: fwrite_def Let_def waiting_def want_def got_def)
  then have o: "out' = out\<lparr>written := written out @ bs, on_disk := on_disk out + got,
                         room := room out - got\<rparr>"
    by (simp add: assms(1))
  have g: "got \<le> room out" "got \<le> waiting + length bs"
    by (simp_all add: got_def want_def)
  have "on_disk out + got \<le> length (written out) + length bs"
    using g(2) assms(2) by (simp add: waiting_def)
  moreover have "on_disk out + got + (room out - got) = on_disk out + room out"
    using g(1) by simp
  ultimately show ?thesis
    by (simp add: o)
qed

lemma copy_loop_keeps:
  assumes step: "\<And>bs out n out'. fwrite bs out = (n, out') \<Longrightarrow> P out \<Longrightarrow> P out'"
  shows "copy_loop remaining fin out = Inr out' \<Longrightarrow> P out \<Longrightarrow> P out'"
proof (induction remaining fin out rule: copy_loop.induct)
  case (1 remaining fin out)
  show ?case
  proof (cases "0 < remaining")
    case False
    with "1.prems" show ?thesis
      by (subst (asm) copy_loop.simps) simp
  next
    case True
    define chunk where "chunk = (if BUFSIZE < remaining then BUFSIZE else remaining)"
    obtain buf fin' where rd: "fread chunk fin = (buf, fin')" by (cases "fread chunk fin")
    obtain n out1 where wr: "fwrite buf out = (n, out1)" by (cases "fwrite buf out")
    from "1.prems"(1) True rd wr have len: "length buf = chunk" and n: "n = chunk"
      and rec: "copy_loop (remaining - chunk) fin' out1 = Inr out'"
      by (subst (asm) copy_loop.simps; simp add: chunk_def [symmetric] Let_def split: if_splits)+
    have "P out1"
      using wr "1.prems"(2) by (rule step)
    with "1.IH" [OF True chunk_def rd [symmetric] _ wr [symmetric] _ rec] len n
    show ?thesis by simp
  qed
qed

lemma pad_loop_keeps:
  assumes step: "\<And>bs out n out'. fwrite bs out = (n, out') \<Longrightarrow> P out \<Longrightarrow> P out'"
  shows "pad_loop pad_bytes out = Inr out' \<Longrightarrow> P out \<Longrightarrow> P out'"
proof (induction pad_bytes out rule: pad_loop.induct)
  case (1 pad_bytes out)
  show ?case
  proof (cases "0 < pad_bytes")
    case False
    with "1.prems" show ?thesis
      by (subst (asm) pad_loop.simps) simp
  next
    case True
    define chunk2 where "chunk2 = (if BUFSIZE < pad_bytes then BUFSIZE else pad_bytes)"
    let ?buf = "take chunk2 (replicate BUFSIZE (0::byte))"
    obtain n out1 where wr: "fwrite ?buf out = (n, out1)" by (cases "fwrite ?buf out")
    from "1.prems"(1) True wr have n: "n = chunk2"
      and rec: "pad_loop (pad_bytes - chunk2) out1 = Inr out'"
      by (subst (asm) pad_loop.simps; simp add: chunk2_def [symmetric] Let_def split: if_splits)+
    have "P out1"
      using wr "1.prems"(2) by (rule step)
    with "1.IH" [OF True chunk2_def wr [symmetric] _ rec] n
    show ?thesis by simp
  qed
qed

lemma track_keeps:
  assumes step: "\<And>bs out n out'. fwrite bs out = (n, out') \<Longrightarrow> P out \<Longrightarrow> P out'"
    and "track w wav a = Inr a'" and "P (fbin a)"
  shows "P (fbin a')"
proof -
  from assms(2) obtain k fin1 m out1 where
    c: "copy_loop k fin1 (fbin a) = Inr out1" and p: "pad_loop m out1 = Inr (fbin a')"
    by (auto simp: track_def Let_def split: option.splits sum.splits prod.splits)
  have "P out1"
    using step c assms(3) by (rule copy_loop_keeps)
  with step p show ?thesis
    by (rule pad_loop_keeps)
qed

lemma tracks_keeps:
  assumes step: "\<And>bs out n out'. fwrite bs out = (n, out') \<Longrightarrow> P out \<Longrightarrow> P out'"
  shows "tracks w paths a = Inr a' \<Longrightarrow> P (fbin a) \<Longrightarrow> P (fbin a')"
proof (induction paths arbitrary: a)
  case Nil
  then show ?case by simp
next
  case (Cons wav wavs)
  from Cons.prems(1) obtain a1 where
    t: "track w wav a = Inr a1" and r: "tracks w wavs a1 = Inr a'"
    by (auto split: sum.splits prod.splits)
  have "P (fbin a1)"
    using step t Cons.prems(2) by (rule track_keeps)
  with r show ?case
    by (rule Cons.IH)
qed

text \<open>Where the file has room for all the bytes of the run, closing the stream leaves
  exactly the bytes handed to it.\<close>

lemma fclose_with_room:
  assumes "tracks w paths (asm0 w) = Inr a"
    and "length (written (fbin a)) \<le> bin_space w"
  shows "fclose (fbin a) = written (fbin a)"
proof -
  let ?P = "\<lambda>out. on_disk out \<le> length (written out) \<and> on_disk out + room out = bin_space w"
  have "?P (fbin a)"
  proof (rule tracks_keeps [where P = ?P, OF _ assms(1)])
    fix bs out n out'
    assume "fwrite bs out = (n, out')"
      and "on_disk out \<le> length (written out) \<and> on_disk out + room out = bin_space w"
    then show "on_disk out' \<le> length (written out') \<and> on_disk out' + room out' = bin_space w"
      using fwrite_books [of bs out n out'] by simp
  next
    show "?P (fbin (asm0 w))"
      by (simp add: asm0_def)
  qed
  with assms(2) show ?thesis
    by (simp add: fclose_def min_def)
qed

lemma image_with_room:
  assumes "tracks w paths (asm0 w) = Inr a" and "length paths < 2147483648"
    and "paths \<noteq> []" and "bin_opens w" and "malloc_ok w"
    and "unat (total_sectors_before a) * 2352 \<le> bin_space w"
  shows "disc_bin (main w argv0 paths) = Some (written (fbin a))"
    and "length (written (fbin a)) = unat (total_sectors_before a) * 2352"
proof -
  show l: "length (written (fbin a)) = unat (total_sectors_before a) * 2352"
    using assms(1,2) by (rule stream_is_whole_sectors)
  have "fclose (fbin a) = written (fbin a)"
    using assms(1) assms(6) by (intro fclose_with_room) (simp_all only: l)
  then show "disc_bin (main w argv0 paths) = Some (written (fbin a))"
    by (simp only: main_after_tracks(1) [OF assms(1,3,4,5)])
qed

text \<open>A run over the one input \<open>a.wav\<close> where \<open>disc.bin\<close> has room for \<open>n\<close> bytes: no call
  of \<open>fwrite\<close> reaches the file, and closing the stream cuts the image at \<open>n\<close> bytes.\<close>

lemma tracks_tight:
  "tracks (world_tight n) [''a.wav''] (asm0 (world_tight n)) =
     Inr \<lparr>index_times = [0], total_sectors_before = 1,
          fbin = \<lparr>written = [1, 2, 3, 4] @ replicate 2348 0, on_disk = 0, room = n,
                  policy = full_buffer 4096\<rparr>\<rparr>"
proof -
  let ?o1 = "\<lparr>written = [1, 2, 3, 4], on_disk = 0, room = n, policy = full_buffer 4096\<rparr>"
  let ?o2 = "\<lparr>written = [1, 2, 3, 4] @ replicate 2348 (0::byte), on_disk = 0, room = n,
              policy = full_buffer 4096\<rparr>"
  have f: "files (world_tight n) ''a.wav'' = Some wav_cd"
    by (simp add: world_tight_def world_cd_def)
  have 1: "fwrite [1, 2, 3, 4] (fbin (asm0 (world_tight n))) = (4, ?o1)"
    by (simp add: fwrite_def asm0_def world_tight_def world_cd_def full_buffer_def)
  have 2: "fwrite (replicate 2348 0) ?o1 = (2348, ?o2)"
    by (simp add: fwrite_def full_buffer_def)
  have "track (world_tight n) ''a.wav'' (asm0 (world_tight n)) =
     Inr \<lparr>index_times = [0], total_sectors_before = 1, fbin = ?o2\<rparr>"
    using track_wav_cd [OF f 1 2] by (simp add: asm0_def)
  then show ?thesis
    by (simp only: tracks.simps sum.case)
qed

lemma main_tight:
  "main (world_tight n) argv0 [''a.wav''] =
     \<lparr>status = 0, err = [], disc_bin = Some (take n ([1, 2, 3, 4] @ replicate 2348 0)),
      disc_cue = Some (cue_sheet [0])\<rparr>"
proof -
  have w: "bin_opens (world_tight n)" "malloc_ok (world_tight n)" "cue_opens (world_tight n)"
    by (simp_all add: world_tight_def world_cd_def)
  have "fclose \<lparr>written = [1, 2, 3, 4] @ replicate 2348 (0::byte), on_disk = 0, room = n,
                policy = full_buffer 4096\<rparr> = take n ([1, 2, 3, 4] @ replicate 2348 0)"
    by (simp add: fclose_def min_def)
  then show ?thesis
    by (simp add: main_def w tracks_tight del: tracks.simps)
qed

text \<open>
  Claim C3, on a run that fails it. \<open>main\<close> checks every \<open>fwrite\<close> and ignores the result
  of \<open>fclose(fbin)\<close>; it never calls \<open>fflush\<close>. With one input of one sector and room for
  1000 bytes in \<open>disc.bin\<close>, both calls of \<open>fwrite\<close> only fill the buffer and report all
  bytes taken, the track loop goes through with the sector counter at 1, and the run ends
  with status 0 and nothing on \<open>stderr\<close>; the image it leaves holds 1000 bytes, not
  \<open>1 * 2352\<close>.
\<close>

theorem image_cut_short:
  "status (main (world_tight 1000) ''mkcdda'' [''a.wav'']) = 0 \<and>
   err (main (world_tight 1000) ''mkcdda'' [''a.wav'']) = [] \<and>
   disc_bin (main (world_tight 1000) ''mkcdda'' [''a.wav'']) =
     Some ([1, 2, 3, 4] @ replicate 996 0) \<and>
   tracks (world_tight 1000) [''a.wav''] (asm0 (world_tight 1000)) =
     Inr \<lparr>index_times = [0], total_sectors_before = 1,
          fbin = \<lparr>written = [1, 2, 3, 4] @ replicate 2348 0, on_disk = 0, room = 1000,
                  policy = full_buffer 4096\<rparr>\<rparr> \<and>
   map_option length (disc_bin (main (world_tight 1000) ''mkcdda'' [''a.wav''])) = Some 1000"
  by (simp add: main_tight tracks_tight del: tracks.simps)

text \<open>
  Claim C2, on a run that fails it. With the same input and room for 2 bytes in
  \<open>disc.bin\<close>, the run ends with status 0 and a cue sheet that puts the track at sector 0,
  and the image holds the first 2 of the 4 payload bytes: the range from \<open>0 * 2352\<close> to
  \<open>0 * 2352 + 4\<close> of the image is not the payload.
\<close>

theorem payload_cut_short:
  "status (main (world_tight 2) ''mkcdda'' [''a.wav'']) = 0 \<and>
   err (main (world_tight 2) ''mkcdda'' [''a.wav'']) = [] \<and>
   disc_bin (main (world_tight 2) ''mkcdda'' [''a.wav'']) = Some [1, 2] \<and>
   disc_cue (main (world_tight 2) ''mkcdda'' [''a.wav'']) = Some (cue_sheet [0]) \<and>
   source_payload (world_tight 2) ''a.wav'' = [1, 2, 3, 4]"
proof -
  have "files (world_tight 2) ''a.wav'' = Some wav_cd"
    by (simp add: world_tight_def world_cd_def)
  then have "source_payload (world_tight 2) ''a.wav'' = [1, 2, 3, 4]"
    by (simp add: source_payload_def parse_wav_cd) (simp add: wav_cd_def)
  then show ?thesis
    by (simp add: main_tight)
qed

section \<open>The declaration lines of the cue sheet\<close>

lemma cue_tracks_blocks:
  "cue_tracks k ts =
     concat (map (\<lambda>i. track_line (k + i) @ (if k + i = 0 then pregap_line else []) @
                        index_line (ts ! i)) [0..<length ts])"
proof (induction ts arbitrary: k)
  case Nil
  then show ?case by simp
next
  case (Cons t ts)
  have "[0..<length (t # ts)] = 0 # map Suc [0..<length ts]"
    by (simp add: upt_conv_Cons map_Suc_upt del: upt_Suc)
  then show ?case
    by (simp add: Cons.IH comp_def del: upt_Suc)
qed

text \<open>
  Claim C8, as amended. The cue sheet is the \<open>FILE\<close> line followed, for every track in
  order, by its declaration line, the pregap line for the first track only, and its index
  line. For a track whose 1-based ordinal is at most 99 the declaration line carries the
  ordinal as exactly two digits, filled with a zero, followed by \<open>AUDIO\<close>; from the
  hundredth track on \<open>%02d\<close> prints all the digits of the ordinal, three or more.
\<close>

theorem track_declaration_lines:
  "cue_sheet ts =
     file_line @
     concat (map (\<lambda>i. track_line i @ (if i = 0 then pregap_line else []) @ index_line (ts ! i))
               [0..<length ts]) \<and>
   (i + 1 < 100 \<longrightarrow>
      track_line i =
        ''  TRACK '' @ [digit_char ((i + 1) div 10), digit_char ((i + 1) mod 10)] @
        '' AUDIO'' @ [newline]) \<and>
   (100 \<le> j + 1 \<longrightarrow>
      track_line j = ''  TRACK '' @ dec (j + 1) @ '' AUDIO'' @ [newline] \<and>
      3 \<le> length (dec (j + 1)))"
proof (intro conjI impI)
  show "cue_sheet ts =
     file_line @
     concat (map (\<lambda>i. track_line i @ (if i = 0 then pregap_line else []) @ index_line (ts ! i))
               [0..<length ts])"
    using cue_tracks_blocks [of 0 ts] by (simp add: cue_sheet_def)
  show "track_line i =
        ''  TRACK '' @ [digit_char ((i + 1) div 10), digit_char ((i + 1) mod 10)] @
        '' AUDIO'' @ [newline]" if "i + 1 < 100"
    using that by (simp add: track_line_def fmt_02_small)
  show "track_line j = ''  TRACK '' @ dec (j + 1) @ '' AUDIO'' @ [newline]" if "100 \<le> j + 1"
    using that by (simp add: track_line_def fmt_02_large)
  show "3 \<le> length (dec (j + 1))" if "100 \<le> j + 1"
    using that by (rule length_dec_ge)
qed

theorem track_declaration_lines_witness:
  "(8::nat) + 1 < 100 \<and> track_line 8 = ''  TRACK 09 AUDIO'' @ [newline] \<and>
   (100::nat) \<le> 99 + 1 \<and> track_line 99 = ''  TRACK 100 AUDIO'' @ [newline]"
proof -
  have d: "dec 100 = ''100''"
    by (simp add: dec.simps digit_char_def)
  from track_declaration_lines [of "[]" 8 99] show ?thesis
    by (simp add: digit_char_def d)
qed

lemma cue_tracks_append:
  "cue_tracks k (xs @ ys) = cue_tracks k xs @ cue_tracks (k + length xs) ys"
  by (induction xs arbitrary: k) simp_all

lemma parse_wav_empty: "parse_wav \<lparr>content = wav_empty, pos = 0\<rparr> name = Inr (44, 0)"
  by (simp add: parse_wav_def parser_eval profile_ok_def wav_empty_def)

lemma track_empty:
  "track world_empty wav a = Inr (a\<lparr>index_times := index_times a @ [total_sectors_before a]\<rparr>)"
proof -
  have p: "pad_of 0 = 0" "0 div SECTOR = 0"
    by (simp_all add: pad_of_def SECTOR_def)
  show ?thesis
    by (simp add: track_def world_empty_def parse_wav_empty fseek_set_def LONG_MAX_def
        copy_loop.simps pad_loop.simps p Let_def)
qed

lemma tracks_empty:
  "tracks world_empty (replicate n wav) a =
     Inr (a\<lparr>index_times := index_times a @ replicate n (total_sectors_before a)\<rparr>)"
proof (induction n arbitrary: a)
  case 0
  then show ?case by simp
next
  case (Suc n)
  show ?case
    by (simp add: track_empty Suc.IH replicate_app_Cons_same)
qed

text \<open>The claim as stated fails for a run over a hundred inputs: the declaration line of
  the last track carries three digits.\<close>

theorem track_ordinal_counterexample:
  "disc_cue (main world_empty ''mkcdda'' (replicate 100 ''a.wav'')) =
     Some (cue_sheet (replicate 99 0) @
           ''  TRACK 100 AUDIO'' @ [newline] @ ''    INDEX 01 00:00:00'' @ [newline])"
proof -
  have w: "bin_opens world_empty" "malloc_ok world_empty" "cue_opens world_empty"
    by (simp_all add: world_empty_def)
  have m: "disc_cue (main world_empty ''mkcdda'' (replicate 100 ''a.wav'')) =
             Some (cue_sheet (replicate 100 0))"
    by (simp add: main_def w tracks_empty asm0_def)
  have "replicate (99 + 1) (0::ulong) = replicate 99 0 @ replicate 1 0"
    by (rule replicate_add)
  then have "replicate 100 (0::ulong) = replicate 99 0 @ [0]"
    by simp
  then have "cue_sheet (replicate 100 0) =
               cue_sheet (replicate 99 0) @ track_line 99 @ index_line 0"
    by (simp add: cue_sheet_def cue_tracks_append)
  moreover have "track_line 99 = ''  TRACK 100 AUDIO'' @ [newline]"
    by (simp add: track_line_def fmt_02_def dec.simps digit_char_def)
  moreover have "index_line 0 = ''    INDEX 01 00:00:00'' @ [newline]"
    by (simp add: index_line_def mmssff_from_sectors_def minutes_def seconds_def frames_def
        fmt_02_def dec.simps digit_char_def)
  ultimately show ?thesis
    by (simp add: m)
qed

section \<open>Invocation without inputs\<close>

text \<open>
  Claim C9. With no input path, \<open>main\<close> exits with status 1 after printing the two lines of
  its usage text on \<open>stderr\<close>, and creates neither \<open>disc.bin\<close> nor \<open>disc.cue\<close>.
\<close>

theorem no_inputs_is_usage_error:
  "main w argv0 [] =
     \<lparr>status = 1,
      err = ''No track*.wav files found (pass them as arguments).'' @ [newline] @
            ''Usage: '' @ argv0 @ '' track1.wav [track2.wav ...]'' @ [newline],
      disc_bin = None, disc_cue = None\<rparr>"
  by (simp add: main_def usage_def)

end

